theory Spec2Isabelle
  imports Main
begin

text \<open>
  A shallow embedding of three parts of the Sapphire framework: the message parser that
  decides which prefix a message invokes the bot with, the single precondition node, and the
  listener with its error-isolating wrappers. Each source method is a function that returns
  the actions it performs together with its result; a thrown error or a rejected promise is
  the \<open>Inl\<close> of a sum.
\<close>

section \<open>JavaScript values used by the sources\<close>

text \<open>
  A JavaScript string is a finite sequence of code units; it is modelled as a \<^typ>\<open>string\<close>,
  one \<^typ>\<open>char\<close> per code unit. The sources only compare code units for equality, count
  them and cut the sequence, so nothing depends on the width of a unit.
\<close>

text \<open>\<^verbatim>\<open>content.startsWith(s)\<close>\<close>

definition startsWith :: "string \<Rightarrow> string \<Rightarrow> bool" where
  "startsWith content s \<longleftrightarrow> take (length s) content = s"

text \<open>\<^verbatim>\<open>content[i]\<close>: the code unit at index \<open>i\<close>, \<^verbatim>\<open>undefined\<close> (here \<open>None\<close>) out of range.\<close>

definition charAt :: "string \<Rightarrow> nat \<Rightarrow> char option" where
  "charAt content i = (if i < length content then Some (content ! i) else None)"

text \<open>\<^verbatim>\<open>content.substr(start, len)\<close> for non-negative arguments.\<close>

definition substr :: "string \<Rightarrow> nat \<Rightarrow> nat \<Rightarrow> string" where
  "substr content start len = take len (drop start content)"

text \<open>
  Truthiness of a value of type \<^verbatim>\<open>string | null\<close>: \<^verbatim>\<open>null\<close> and the empty string are falsy.
\<close>

definition truthy :: "string option \<Rightarrow> bool" where
  "truthy s = (case s of None \<Rightarrow> False | Some x \<Rightarrow> x \<noteq> [])"

text \<open>
  Errors are values. \<open>TypeError\<close> is what a property access on \<^verbatim>\<open>null\<close> throws (the
  non-null assertions \<^verbatim>\<open>!\<close> of TypeScript check nothing at run time), \<open>Error\<close> is
  \<^verbatim>\<open>new Error(message)\<close>, and \<open>External\<close> is whatever an awaited call into the chat
  library rejects with.
\<close>

datatype js_error = TypeError | Error string | External string

section \<open>The message parser: \<^verbatim>\<open>events/command-handler/CoreMessageParser.ts\<close>\<close>

subsection \<open>Data\<close>

text \<open>\<^verbatim>\<open>message.channel.type\<close>: \<^verbatim>\<open>'dm'\<close>, \<^verbatim>\<open>'text'\<close> or \<^verbatim>\<open>'news'\<close>.\<close>

datatype channel_type = DM | GuildText | GuildNews

datatype member = Member string

record guild =
  me :: "member option"

record message =
  author_bot :: bool
  webhookID :: "string option"
  content :: string
  channel_type :: channel_type
  guild :: "guild option"

datatype permission_flag = VIEW_CHANNEL | SEND_MESSAGES | OTHER_FLAG string

text \<open>
  What \<^verbatim>\<open>client.fetchPrefix(message)\<close> resolves with: \<^verbatim>\<open>null\<close>, one string, or an
  ordered sequence of strings.
\<close>

datatype prefixes = NoPrefixes | OnePrefix string | ManyPrefixes "string list"

text \<open>
  The prefix carried by the prefixed-message event: a string (the mention token or a fetched
  prefix) or the configured pattern, of an abstract type \<open>'r\<close>.
\<close>

datatype 'r prefix = StringPrefix string | RegexPrefix 'r

text \<open>
  The collaborators of the handler that are not part of this repository are parameters:
  the client's identifier and options, the prefix fetch, the member fetch of the guild, and the
  permission object of the channel (of an abstract type \<open>'p\<close>) with its predicate
  \<^verbatim>\<open>has(required, flag)\<close>. An awaited call either resolves (\<open>Inr\<close>) or rejects (\<open>Inl\<close>).
  The handler reaches the client as \<^verbatim>\<open>this.context.client\<close> and as \<^verbatim>\<open>message.client\<close>; both
  are the one client of the framework.
\<close>

record ('r, 'p) env =
  client_id :: "string option"
  regexPrefix :: "'r option"
  fetchPrefix :: "message \<Rightarrow> js_error + prefixes"
  members_fetch :: "message \<Rightarrow> string \<Rightarrow> js_error + member option"
  permissionsFor :: "message \<Rightarrow> member \<Rightarrow> 'p option"
  has :: "'p \<Rightarrow> permission_flag set \<Rightarrow> bool \<Rightarrow> bool"

text \<open>
  The observable actions of one run of the handler, in the order in which they happen: calls
  into the collaborators and events emitted on the client.
\<close>

datatype 'r action =
    MembersFetch string
  | PermissionsHas member "permission_flag set" bool
  | FetchPrefix message
  | EmitMentionPrefixOnly message
  | EmitPrefixedMessage message "'r prefix"

subsection \<open>Operations\<close>

text \<open>\<^verbatim>\<open>new Permissions(['VIEW_CHANNEL', 'SEND_MESSAGES']).freeze()\<close>\<close>

definition requiredPermissions :: "permission_flag set" where
  "requiredPermissions = {VIEW_CHANNEL, SEND_MESSAGES}"

text \<open>
  \<^verbatim>\<open>guild.me ?? (client.id ? await guild.members.fetch(client.id) : null)\<close>: the cached
  member if there is one; otherwise a fetch when the client's identifier is truthy, and
  \<^verbatim>\<open>null\<close> when it is not.
\<close>

definition resolveMe :: "('r, 'p) env \<Rightarrow> message \<Rightarrow> guild \<Rightarrow> 'r action list \<times> (js_error + member option)" where
  "resolveMe e m g =
     (case me g of
        Some x \<Rightarrow> ([], Inr (Some x))
      | None \<Rightarrow>
          (case client_id e of
             None \<Rightarrow> ([], Inr None)
           | Some i \<Rightarrow>
               if i = [] then ([], Inr None)
               else ([MembersFetch i], members_fetch e m i)))"

definition canRunInChannel :: "('r, 'p) env \<Rightarrow> message \<Rightarrow> 'r action list \<times> (js_error + bool)" where
  "canRunInChannel e m =
     (if channel_type m = DM then ([], Inr True)
      else
        case guild m of
          None \<Rightarrow> ([], Inl TypeError)
        | Some g \<Rightarrow>
            (case resolveMe e m g of
               (t, Inl err) \<Rightarrow> (t, Inl err)
             | (t, Inr None) \<Rightarrow> (t, Inr False)
             | (t, Inr (Some mem)) \<Rightarrow>
                 (case permissionsFor e m mem of
                    None \<Rightarrow> (t, Inl TypeError)
                  | Some p \<Rightarrow>
                      (t @ [PermissionsHas mem requiredPermissions False],
                       Inr (has e p requiredPermissions False)))))"

definition getMentionPrefix :: "string option \<Rightarrow> string \<Rightarrow> string option" where
  "getMentionPrefix cid content' =
     (case cid of
        None \<Rightarrow> None
      | Some i \<Rightarrow>
          if i = [] then None
          else if length content' < 20 \<or> \<not> startsWith content' ''<@'' then None
          else
            let nickname = (charAt content' 2 = Some (CHR ''!''));
                idOffset = (if nickname then 3 else 2);
                idLength = length i
            in
              if charAt content' (idOffset + idLength) \<noteq> Some (CHR ''>'') then None
              else
                let mentionID = substr content' idOffset idLength
                in
                  if mentionID = i then Some (substr content' 0 (idOffset + idLength + 1))
                  else None)"

text \<open>\<^verbatim>\<open>prefixes.find((prefix) => content.startsWith(prefix)) ?? null\<close>\<close>

fun find_prefix :: "string \<Rightarrow> string list \<Rightarrow> string option" where
  "find_prefix content' [] = None"
| "find_prefix content' (p # ps) = (if startsWith content' p then Some p else find_prefix content' ps)"

definition getPrefix :: "string \<Rightarrow> prefixes \<Rightarrow> string option" where
  "getPrefix content' ps =
     (case ps of
        NoPrefixes \<Rightarrow> None
      | OnePrefix p \<Rightarrow> (if startsWith content' p then Some p else None)
      | ManyPrefixes l \<Rightarrow> find_prefix content' l)"

text \<open>
  \<^verbatim>\<open>CoreEvent.run\<close>. The result is the list of actions performed and how the returned promise
  settles: \<open>Inr ()\<close> when it resolves, \<open>Inl err\<close> when it rejects.
\<close>

definition CoreEvent_run :: "('r, 'p) env \<Rightarrow> message \<Rightarrow> 'r action list \<times> (js_error + unit)" where
  "CoreEvent_run e m =
     (if author_bot m \<or> truthy (webhookID m) then ([], Inr ())
      else
        case canRunInChannel e m of
          (t, Inl err) \<Rightarrow> (t, Inl err)
        | (t, Inr canRun) \<Rightarrow>
            if \<not> canRun then (t, Inr ())
            else
              let mentionPrefix = getMentionPrefix (client_id e) (content m)
              in
                if truthy mentionPrefix then
                  (case mentionPrefix of
                     None \<Rightarrow> (t, Inr ())
                   | Some mp \<Rightarrow>
                       if length (content m) = length mp
                       then (t @ [EmitMentionPrefixOnly m], Inr ())
                       else (t @ [EmitPrefixedMessage m (StringPrefix mp)], Inr ()))
                else
                  (case regexPrefix e of
                     Some r \<Rightarrow> (t @ [EmitPrefixedMessage m (RegexPrefix r)], Inr ())
                   | None \<Rightarrow>
                       (case fetchPrefix e m of
                          Inl err \<Rightarrow> (t @ [FetchPrefix m], Inl err)
                        | Inr ps \<Rightarrow>
                            (case getPrefix (content m) ps of
                               None \<Rightarrow> (t @ [FetchPrefix m], Inr ())
                             | Some parsed \<Rightarrow>
                                 (t @ [FetchPrefix m, EmitPrefixedMessage m (StringPrefix parsed)],
                                  Inr ())))))"

section \<open>The single precondition node: \<^verbatim>\<open>lib/utils/preconditions/PreconditionContainerSingle.ts\<close>\<close>

text \<open>
  A context is a \<^verbatim>\<open>Record<PropertyKey, unknown>\<close>: a finite map from keys to values. The
  constructor takes a name (the context is then \<^verbatim>\<open>{}\<close>) or a name with a context.
\<close>

datatype ('k, 'v) PreconditionSingleResolvable =
    ResolvableName string
  | ResolvableDetails string "'k \<rightharpoonup> 'v"

record ('k, 'v) PreconditionContainerSingle =
  node_context :: "'k \<rightharpoonup> 'v"
  name :: string

fun PreconditionContainerSingle_new ::
  "('k, 'v) PreconditionSingleResolvable \<Rightarrow> ('k, 'v) PreconditionContainerSingle" where
  "PreconditionContainerSingle_new (ResolvableName n) = \<lparr>node_context = Map.empty, name = n\<rparr>"
| "PreconditionContainerSingle_new (ResolvableDetails n c) = \<lparr>node_context = c, name = n\<rparr>"

text \<open>
  The store of preconditions, \<^verbatim>\<open>container.stores.get('preconditions')\<close>, maps a name to a
  precondition or to nothing; a precondition is its \<^verbatim>\<open>run(message, command, context)\<close>, with
  a result of an abstract type \<open>'res\<close>. An invocation records the arguments of one call.
\<close>

type_synonym ('m, 'c, 'k, 'v, 'res) precondition = "'m \<Rightarrow> 'c \<Rightarrow> ('k \<rightharpoonup> 'v) \<Rightarrow> 'res"

datatype ('m, 'c, 'k, 'v) invocation = Invocation string 'm 'c "'k \<rightharpoonup> 'v"

text \<open>
  \<^verbatim>\<open>PreconditionContainerSingle.run\<close>. The caller's context is optional and defaults to
  \<^verbatim>\<open>{}\<close>; the spread \<^verbatim>\<open>{ ...context, ...this.context }\<close> is the map \<open>ctx ++ node_context this\<close>.
  The result is the list of invocations made and either the thrown error or the value returned.
\<close>

definition PreconditionContainerSingle_run ::
  "(string \<rightharpoonup> ('m, 'c, 'k, 'v, 'res) precondition) \<Rightarrow> ('k, 'v) PreconditionContainerSingle \<Rightarrow>
    'm \<Rightarrow> 'c \<Rightarrow> ('k \<rightharpoonup> 'v) option \<Rightarrow> ('m, 'c, 'k, 'v) invocation list \<times> (js_error + 'res)" where
  "PreconditionContainerSingle_run preconditions this msg command caller =
     (let ctx = (case caller of None \<Rightarrow> Map.empty | Some c \<Rightarrow> c)
      in
        case preconditions (name this) of
          Some precondition \<Rightarrow>
            ([Invocation (name this) msg command (ctx ++ node_context this)],
             Inr (precondition msg command (ctx ++ node_context this)))
        | None \<Rightarrow>
            ([], Inl (Error (''The precondition '' @ [CHR 0x22] @ name this @ [CHR 0x22]
                              @ '' is not available.''))))"

section \<open>The listener: \<^verbatim>\<open>lib/structures/Listener.ts\<close>\<close>

subsection \<open>Data\<close>

text \<open>
  Event sources are named by reference: the client itself or some other emitter. The option
  \<^verbatim>\<open>emitter\<close> is absent, the name of a property of the client, or an emitter.
\<close>

datatype emitter_ref = ClientEmitter | OtherEmitter nat

datatype emitter_option = EmitterUndefined | EmitterKey string | EmitterObject emitter_ref

record EventOptions =
  opt_emitter :: emitter_option
  opt_event :: "string option"
  opt_once :: "bool option"

text \<open>The private field \<^verbatim>\<open>#listener\<close>: \<^verbatim>\<open>_run\<close> or \<^verbatim>\<open>_runOnce\<close> bound to the listener, or \<^verbatim>\<open>null\<close>.\<close>

datatype bound_method = Bound_run | Bound_runOnce

record listener =
  piece_name :: string
  piece_path :: string
  emitter :: "emitter_ref option"
  event :: string
  once :: bool
  listener_fn :: "bound_method option"

text \<open>
  The constructor. The name and path of the piece are set by the base class, which is not part
  of this repository, and are taken as given; \<open>client_property key\<close> is
  \<^verbatim>\<open>Reflect.get(client, key)\<close>.
\<close>

definition Listener_new ::
  "(string \<Rightarrow> emitter_ref option) \<Rightarrow> string \<Rightarrow> string \<Rightarrow> EventOptions \<Rightarrow> listener" where
  "Listener_new client_property nm pth options =
     (let em = (case opt_emitter options of
                  EmitterUndefined \<Rightarrow> Some ClientEmitter
                | EmitterKey key \<Rightarrow> client_property key
                | EmitterObject x \<Rightarrow> Some x);
          ev = (case opt_event options of None \<Rightarrow> nm | Some x \<Rightarrow> x);
          oc = (case opt_once options of None \<Rightarrow> False | Some b \<Rightarrow> b)
      in \<lparr>piece_name = nm, piece_path = pth, emitter = em, event = ev, once = oc,
          listener_fn =
            (if em \<noteq> None \<and> ev \<noteq> [] then Some (if oc then Bound_runOnce else Bound_run)
             else None)\<rparr>)"

text \<open>
  A handler registered on a source is a bound method together with the listener it is bound
  to. The calls a listener issues to a source:
\<close>

type_synonym handler = "bound_method \<times> listener"

datatype emitter_call =
    CallOn emitter_ref string handler
  | CallOnce emitter_ref string handler
  | CallOff emitter_ref string handler

text \<open>
  What one call of the user's \<^verbatim>\<open>run\<close> does: return a plain value, return a promise that
  resolves, return a promise that rejects, throw synchronously, or return a promise that
  never settles.
\<close>

datatype ('v, 'e) handler_result = Returns 'v | Resolves 'v | Rejects 'e | Throws 'e | NeverSettles

text \<open>\<^verbatim>\<open>client.emit(Events.ListenerError, error, { piece: this })\<close>\<close>

datatype 'e client_event = ListenerError 'e listener

datatype 'e wrapper_action = ClientEmit "'e client_event" | StoreUnload listener

text \<open>How the promise returned by an \<^verbatim>\<open>async\<close> method settles, if it does.\<close>

datatype settled = Fulfilled | Rejected js_error | Pending

text \<open>
  What one call of an \<^verbatim>\<open>async\<close> wrapper does: the actions it performs before the call
  returns its promise (\<open>now\<close>), the actions it performs when its awaits resume (\<open>later\<close>), and
  how its promise settles. The call itself never throws: an error inside an \<^verbatim>\<open>async\<close> method
  rejects its promise.
\<close>

record 'e wrapper_result =
  now :: "'e wrapper_action list"
  later :: "'e wrapper_action list"
  promise :: settled

subsection \<open>Operations\<close>

definition onLoad :: "listener \<Rightarrow> js_error + emitter_call list" where
  "onLoad this =
     (case listener_fn this of
        None \<Rightarrow> Inr []
      | Some f \<Rightarrow>
          (case emitter this of
             None \<Rightarrow> Inl TypeError
           | Some em \<Rightarrow>
               Inr [if once this then CallOnce em (event this) (f, this)
                    else CallOn em (event this) (f, this)]))"

definition onUnload :: "listener \<Rightarrow> js_error + emitter_call list" where
  "onUnload this =
     (if \<not> once this then
        (case listener_fn this of
           None \<Rightarrow> Inr []
         | Some f \<Rightarrow>
             (case emitter this of
                None \<Rightarrow> Inl TypeError
              | Some em \<Rightarrow> Inr [CallOff em (event this) (f, this)]))
      else Inr [])"

text \<open>What a call that returns or throws makes of the promise of the method around it.\<close>

definition settle :: "js_error + unit \<Rightarrow> settled" where
  "settle outcome = (case outcome of Inl err \<Rightarrow> Rejected err | Inr u \<Rightarrow> Fulfilled)"

text \<open>
  \<^verbatim>\<open>_run\<close>: the \<^verbatim>\<open>try\<close> block awaits the user's \<^verbatim>\<open>run\<close>, so a synchronous throw and a
  rejection both reach the \<^verbatim>\<open>catch\<close> block: the first at once, before \<^verbatim>\<open>_run\<close> returns its
  promise, the second when the await resumes. The \<^verbatim>\<open>catch\<close> block calls \<^verbatim>\<open>client.emit\<close>
  unguarded: \<open>client_emit ev\<close> is what that call does with the event, return (\<open>Inr\<close>) or
  throw (\<open>Inl\<close>, when a subscriber of the event throws), and a throw rejects the promise of
  \<^verbatim>\<open>_run\<close>.
\<close>

definition Listener__run ::
  "listener \<Rightarrow> ('v, 'e) handler_result \<Rightarrow> ('e client_event \<Rightarrow> js_error + unit) \<Rightarrow> 'e wrapper_result" where
  "Listener__run this r client_emit =
     (case r of
        Returns v \<Rightarrow> \<lparr>now = [], later = [], promise = Fulfilled\<rparr>
      | Resolves v \<Rightarrow> \<lparr>now = [], later = [], promise = Fulfilled\<rparr>
      | Rejects err \<Rightarrow>
          \<lparr>now = [], later = [ClientEmit (ListenerError err this)],
           promise = settle (client_emit (ListenerError err this))\<rparr>
      | Throws err \<Rightarrow>
          \<lparr>now = [ClientEmit (ListenerError err this)], later = [],
           promise = settle (client_emit (ListenerError err this))\<rparr>
      | NeverSettles \<Rightarrow> \<lparr>now = [], later = [], promise = Pending\<rparr>)"

text \<open>
  \<^verbatim>\<open>_runOnce\<close>: \<^verbatim>\<open>await this._run(...args); await this.store.unload(this)\<close>. The first await
  always suspends, so the unload happens after \<^verbatim>\<open>_runOnce\<close> has returned its promise, and
  only if the promise of \<^verbatim>\<open>_run\<close> is fulfilled: when it rejects, \<^verbatim>\<open>_runOnce\<close> rejects with the
  same error and \<^verbatim>\<open>store.unload\<close> is not called. The store is not part of this repository;
  how its \<^verbatim>\<open>unload\<close> settles is the parameter \<open>unloaded\<close>.
\<close>

definition Listener__runOnce ::
  "listener \<Rightarrow> ('v, 'e) handler_result \<Rightarrow> ('e client_event \<Rightarrow> js_error + unit) \<Rightarrow> js_error + unit \<Rightarrow>
    'e wrapper_result" where
  "Listener__runOnce this r client_emit unloaded =
     (let w = Listener__run this r client_emit
      in case promise w of
           Rejected err \<Rightarrow> \<lparr>now = now w, later = later w, promise = Rejected err\<rparr>
         | Pending \<Rightarrow> \<lparr>now = now w, later = later w, promise = Pending\<rparr>
         | Fulfilled \<Rightarrow>
             \<lparr>now = now w, later = later w @ [StoreUnload this], promise = settle unloaded\<rparr>)"

text \<open>The registered handler \<^verbatim>\<open>#listener\<close>, called.\<close>

definition wrapper ::
  "handler \<Rightarrow> ('v, 'e) handler_result \<Rightarrow> ('e client_event \<Rightarrow> js_error + unit) \<Rightarrow> js_error + unit \<Rightarrow>
    'e wrapper_result" where
  "wrapper h r client_emit unloaded =
     (case h of
        (Bound_run, this) \<Rightarrow> Listener__run this r client_emit
      | (Bound_runOnce, this) \<Rightarrow> Listener__runOnce this r client_emit unloaded)"

subsection \<open>The event source and the owning store\<close>

text \<open>
  Modelled from the spec: the event source (\<^verbatim>\<open>on\<close>, \<^verbatim>\<open>once\<close>, \<^verbatim>\<open>off\<close>, \<^verbatim>\<open>emit\<close>) and the
  store that owns the listeners are not part of this repository. A source keeps its
  subscriptions in the order of registration; a subscription made with \<^verbatim>\<open>once\<close> is removed by
  the source itself just before its handler is called for the first time; \<^verbatim>\<open>off\<close> removes
  the most recent subscription of the handler. Loading a piece into the store calls its
  \<^verbatim>\<open>onLoad\<close>, unloading calls its \<^verbatim>\<open>onUnload\<close> and removes it from the store.
\<close>

type_synonym subscription = "emitter_ref \<times> string \<times> handler \<times> bool"

definition sub_handler :: "subscription \<Rightarrow> handler" where
  "sub_handler sub = (case sub of (em, ev, h, oc) \<Rightarrow> h)"

definition sub_listener :: "subscription \<Rightarrow> listener" where
  "sub_listener sub = (case sub of (em, ev, (f, this), oc) \<Rightarrow> this)"

definition sub_matches :: "emitter_ref \<Rightarrow> string \<Rightarrow> subscription \<Rightarrow> bool" where
  "sub_matches em ev sub = (case sub of (em', ev', h, oc) \<Rightarrow> em' = em \<and> ev' = ev)"

fun remove_first :: "('a \<Rightarrow> bool) \<Rightarrow> 'a list \<Rightarrow> 'a list" where
  "remove_first P [] = []"
| "remove_first P (x # xs) = (if P x then xs else x # remove_first P xs)"

fun apply_call :: "emitter_call \<Rightarrow> subscription list \<Rightarrow> subscription list" where
  "apply_call (CallOn em ev h) subs = subs @ [(em, ev, h, False)]"
| "apply_call (CallOnce em ev h) subs = subs @ [(em, ev, h, True)]"
| "apply_call (CallOff em ev h) subs =
     rev (remove_first (\<lambda>sub. sub_matches em ev sub \<and> sub_handler sub = h) (rev subs))"

text \<open>
  What can be observed of a run of the system: which listener's wrapped handler was called,
  which events the wrappers emitted on the client, and which errors escaped a wrapper as the
  rejection of its promise, which nothing handles.
\<close>

datatype 'e observation = Ran listener | Emitted "'e client_event" | Unhandled js_error

text \<open>
  The state: the subscriptions of the sources, the pieces in the store, the wrapper calls that
  have returned their promise and wait for their awaits to resume (each with what the user's
  \<^verbatim>\<open>run\<close> did), and what has been observed so far.
\<close>

record ('v, 'e) system =
  subscriptions :: "subscription list"
  store :: "listener list"
  pending :: "(handler \<times> ('v, 'e) handler_result) list"
  observed :: "'e observation list"

definition store_load :: "listener \<Rightarrow> ('v, 'e) system \<Rightarrow> js_error + ('v, 'e) system" where
  "store_load piece s =
     (case onLoad piece of
        Inl err \<Rightarrow> Inl err
      | Inr calls \<Rightarrow>
          Inr (s\<lparr>subscriptions := fold apply_call calls (subscriptions s),
                 store := store s @ [piece]\<rparr>))"

definition store_unload :: "listener \<Rightarrow> ('v, 'e) system \<Rightarrow> js_error + ('v, 'e) system" where
  "store_unload piece s =
     (case onUnload piece of
        Inl err \<Rightarrow> Inl err
      | Inr calls \<Rightarrow>
          Inr (s\<lparr>subscriptions := fold apply_call calls (subscriptions s),
                 store := removeAll piece (store s)\<rparr>))"

text \<open>
  The actions of a wrapper take effect in order. The result says how the unload through the
  store settled, if there was one. The delivery of the listener-error event to its own
  subscribers is not unfolded: the emission is observed, and what it does to the wrapper is
  the parameter \<open>client_emit\<close> of the wrappers.
\<close>

fun perform :: "'e wrapper_action list \<Rightarrow> ('v, 'e) system \<Rightarrow> (js_error + unit) \<times> ('v, 'e) system" where
  "perform [] s = (Inr (), s)"
| "perform (ClientEmit ev # acts) s = perform acts (s\<lparr>observed := observed s @ [Emitted ev]\<rparr>)"
| "perform (StoreUnload piece # acts) s =
     (case store_unload piece s of Inl err \<Rightarrow> (Inl err, s) | Inr s' \<Rightarrow> perform acts s')"

text \<open>What the source does with a subscription when it is about to call its handler.\<close>

definition drop_once :: "subscription \<Rightarrow> subscription list \<Rightarrow> subscription list" where
  "drop_once sub subs = (if snd (snd (snd sub)) then remove1 sub subs else subs)"

text \<open>
  \<^verbatim>\<open>emit\<close> calls the handlers subscribed to the event, as they are when it starts, in order;
  \<open>results this\<close> is what the user's \<^verbatim>\<open>run\<close> of listener \<open>this\<close> does when called. Each call
  runs the wrapper up to its first suspension and leaves the rest pending, so \<^verbatim>\<open>emit\<close>
  returns before any await resumes.
\<close>

fun deliver ::
  "('e client_event \<Rightarrow> js_error + unit) \<Rightarrow> (listener \<Rightarrow> ('v, 'e) handler_result) \<Rightarrow> subscription list \<Rightarrow>
    ('v, 'e) system \<Rightarrow> ('v, 'e) system" where
  "deliver client_emit results [] s = s"
| "deliver client_emit results (sub # rest) s =
     (let h = sub_handler sub;
          r = results (sub_listener sub);
          s1 = s\<lparr>subscriptions := drop_once sub (subscriptions s),
                 observed := observed s @ [Ran (sub_listener sub)]\<rparr>;
          s2 = snd (perform (now (wrapper h r client_emit (Inr ()))) s1)
      in deliver client_emit results rest (s2\<lparr>pending := pending s2 @ [(h, r)]\<rparr>))"

definition emit ::
  "('e client_event \<Rightarrow> js_error + unit) \<Rightarrow> (listener \<Rightarrow> ('v, 'e) handler_result) \<Rightarrow> emitter_ref \<Rightarrow> string \<Rightarrow>
    ('v, 'e) system \<Rightarrow> ('v, 'e) system" where
  "emit client_emit results em ev s =
     deliver client_emit results (filter (sub_matches em ev) (subscriptions s)) s"

text \<open>
  The awaits of one pending call resume: its later actions take effect, the unload through
  the store above, and a promise that rejects is observed as an unhandled rejection.
\<close>

definition resume ::
  "('e client_event \<Rightarrow> js_error + unit) \<Rightarrow> handler \<times> ('v, 'e) handler_result \<Rightarrow> ('v, 'e) system \<Rightarrow>
    ('v, 'e) system" where
  "resume client_emit task s =
     (case task of
        (h, r) \<Rightarrow>
          (case perform (later (wrapper h r client_emit (Inr ()))) s of
             (unloaded, s1) \<Rightarrow>
               (case promise (wrapper h r client_emit unloaded) of
                  Rejected err \<Rightarrow> s1\<lparr>observed := observed s1 @ [Unhandled err]\<rparr>
                | Fulfilled \<Rightarrow> s1
                | Pending \<Rightarrow> s1)))"

text \<open>All pending calls resume, in the order in which they were made.\<close>

definition drain :: "('e client_event \<Rightarrow> js_error + unit) \<Rightarrow> ('v, 'e) system \<Rightarrow> ('v, 'e) system" where
  "drain client_emit s = fold (resume client_emit) (pending s) (s\<lparr>pending := []\<rparr>)"

text \<open>
  A run of the system: emissions on any source, and between them the pending calls may or may
  not have resumed.
\<close>

datatype ('v, 'e) step = Emit emitter_ref string "listener \<Rightarrow> ('v, 'e) handler_result" | Drain

fun run_steps ::
  "('e client_event \<Rightarrow> js_error + unit) \<Rightarrow> ('v, 'e) step list \<Rightarrow> ('v, 'e) system \<Rightarrow> ('v, 'e) system" where
  "run_steps client_emit [] s = s"
| "run_steps client_emit (Emit em ev results # steps) s =
     run_steps client_emit steps (emit client_emit results em ev s)"
| "run_steps client_emit (Drain # steps) s = run_steps client_emit steps (drain client_emit s)"

fun emits :: "emitter_ref \<Rightarrow> string \<Rightarrow> ('v, 'e) step \<Rightarrow> bool" where
  "emits em ev (Emit em' ev' results) \<longleftrightarrow> em' = em \<and> ev' = ev"
| "emits em ev Drain \<longleftrightarrow> False"

text \<open>The listeners whose handlers were called, in order, and the errors that escaped.\<close>

fun ran :: "'e observation list \<Rightarrow> listener list" where
  "ran [] = []"
| "ran (Ran this # obs) = this # ran obs"
| "ran (Emitted ev # obs) = ran obs"
| "ran (Unhandled err # obs) = ran obs"

fun unhandled :: "'e observation list \<Rightarrow> js_error list" where
  "unhandled [] = []"
| "unhandled (Ran this # obs) = unhandled obs"
| "unhandled (Emitted ev # obs) = unhandled obs"
| "unhandled (Unhandled err # obs) = err # unhandled obs"

text \<open>
  A handler as \<^verbatim>\<open>onLoad\<close> registers it: \<^verbatim>\<open>_runOnce\<close> is only ever bound for a listener with the
  once flag.
\<close>

definition wf_handler :: "handler \<Rightarrow> bool" where
  "wf_handler h = (case h of (f, this) \<Rightarrow> f = Bound_runOnce \<longrightarrow> once this)"

definition wf_subscription :: "subscription \<Rightarrow> bool" where
  "wf_subscription sub = wf_handler (sub_handler sub)"

section \<open>Concrete inputs\<close>

text \<open>Messages, clients and listeners on which the theorems below are instantiated.\<close>

definition bot_id :: string where
  "bot_id = ''123456789012345678''"

definition dm_message :: "string \<Rightarrow> message" where
  "dm_message c =
     \<lparr>author_bot = False, webhookID = None, content = c, channel_type = DM, guild = None\<rparr>"

definition guild_message :: "string \<Rightarrow> member option \<Rightarrow> message" where
  "guild_message c cached =
     \<lparr>author_bot = False, webhookID = None, content = c, channel_type = GuildText,
      guild = Some \<lparr>me = cached\<rparr>\<rparr>"

text \<open>
  A client whose member fetch always finds the member, whose channels grant exactly the two
  required permissions, and whose permission predicate is containment.
\<close>

definition example_env ::
  "string option \<Rightarrow> unit option \<Rightarrow> prefixes \<Rightarrow> (unit, permission_flag set) env" where
  "example_env cid rx ps =
     \<lparr>client_id = cid, regexPrefix = rx, fetchPrefix = (\<lambda>m. Inr ps),
      members_fetch = (\<lambda>m i. Inr (Some (Member i))),
      permissionsFor = (\<lambda>m mem. Some {VIEW_CHANNEL, SEND_MESSAGES}),
      has = (\<lambda>p req flag. req \<subseteq> p)\<rparr>"


text \<open>
  A registry with one precondition, which passes when it is called with level 2 and caller 7,
  and a node with the stored context \<^verbatim>\<open>{ level: 2 }\<close>.
\<close>

definition example_precondition :: "(string, string, string, nat, bool) precondition" where
  "example_precondition msg command ctx \<longleftrightarrow> ctx ''level'' = Some 2 \<and> ctx ''caller'' = Some 7"

definition example_registry :: "string \<rightharpoonup> (string, string, string, nat, bool) precondition" where
  "example_registry = [''nsfw'' \<mapsto> example_precondition]"

definition example_node :: "string \<Rightarrow> (string, nat) PreconditionContainerSingle" where
  "example_node n = PreconditionContainerSingle_new (ResolvableDetails n [''level'' \<mapsto> 2])"

text \<open>
  A once listener and a persistent listener on the client's \<^verbatim>\<open>ready\<close> event, handlers that
  fail (one throws, the other rejects), and states of the system: the persistent listener
  loaded alone, and both loaded.
\<close>

definition once_listener :: listener where
  "once_listener = Listener_new (\<lambda>key. None) ''ready'' ''/listeners/ready.js''
     \<lparr>opt_emitter = EmitterUndefined, opt_event = None, opt_once = Some True\<rparr>"

definition persistent_listener :: listener where
  "persistent_listener = Listener_new (\<lambda>key. None) ''logger'' ''/listeners/logger.js''
     \<lparr>opt_emitter = EmitterUndefined, opt_event = Some ''ready'', opt_once = None\<rparr>"

definition failing_results :: "listener \<Rightarrow> (unit, string) handler_result" where
  "failing_results this = (if piece_name this = ''ready'' then Throws ''boom'' else Rejects ''bang'')"

text \<open>A client on which the listener-error event is delivered, and one on which a subscriber of it throws.\<close>

definition quiet_emit :: "string client_event \<Rightarrow> js_error + unit" where
  "quiet_emit ev = Inr ()"

definition throwing_emit :: "string client_event \<Rightarrow> js_error + unit" where
  "throwing_emit ev = Inl (External ''subscriber'')"

definition persistent_system :: "(unit, string) system" where
  "persistent_system =
     \<lparr>subscriptions = [(ClientEmitter, ''ready'', (Bound_run, persistent_listener), False)],
      store = [persistent_listener], pending = [], observed = []\<rparr>"

definition loaded_system :: "(unit, string) system" where
  "loaded_system =
     \<lparr>subscriptions = [(ClientEmitter, ''ready'', (Bound_runOnce, once_listener), True),
                       (ClientEmitter, ''ready'', (Bound_run, persistent_listener), False)],
      store = [once_listener, persistent_listener], pending = [], observed = []\<rparr>"

text \<open>The persistent listener's system after the once listener has been loaded into it.\<close>

definition once_loaded_system :: "(unit, string) system" where
  "once_loaded_system =
     \<lparr>subscriptions = [(ClientEmitter, ''ready'', (Bound_run, persistent_listener), False),
                       (ClientEmitter, ''ready'', (Bound_runOnce, once_listener), True)],
      store = [persistent_listener, once_listener], pending = [], observed = []\<rparr>"

section \<open>Properties of the message parser\<close>

lemma charAt_eq: "charAt c n = Some x \<longleftrightarrow> n < length c \<and> c ! n = x"
  by (auto simp: charAt_def)

lemma startsWith_open: "startsWith c ''<@'' \<longleftrightarrow> take 2 c = ''<@''"
  by (simp add: startsWith_def numeral_2_eq_2)

text \<open>
  C10. A message whose author is a bot, or which carries a webhook identifier, makes the
  handler return at once: the list of actions is empty, so there is no member fetch, no
  permission check, no prefix fetch, and neither the mention-only nor the prefixed-message
  event is emitted.
\<close>

theorem run_ignores_bots_and_webhooks:
  assumes "author_bot m \<or> truthy (webhookID m)"
  shows "CoreEvent_run e m = ([], Inr ())"
  using assms by (simp add: CoreEvent_run_def)

theorem run_ignores_bots_and_webhooks_witness:
  "(author_bot ((guild_message ''!help'' None)\<lparr>webhookID := Some ''42''\<rparr>)
     \<or> truthy (webhookID ((guild_message ''!help'' None)\<lparr>webhookID := Some ''42''\<rparr>)))
   \<and> CoreEvent_run (example_env (Some bot_id) None (OnePrefix ''!''))
        ((guild_message ''!help'' None)\<lparr>webhookID := Some ''42''\<rparr>) = ([], Inr ())"
proof
  show h: "author_bot ((guild_message ''!help'' None)\<lparr>webhookID := Some ''42''\<rparr>)
     \<or> truthy (webhookID ((guild_message ''!help'' None)\<lparr>webhookID := Some ''42''\<rparr>))"
    by (simp add: guild_message_def truthy_def)
  show "CoreEvent_run (example_env (Some bot_id) None (OnePrefix ''!''))
        ((guild_message ''!help'' None)\<lparr>webhookID := Some ''42''\<rparr>) = ([], Inr ())"
    using h by (rule run_ignores_bots_and_webhooks)
qed

lemma resolveMe_actions: "a \<in> set (fst (resolveMe e m g)) \<Longrightarrow> \<exists>i. a = MembersFetch i"
  by (auto simp: resolveMe_def split: option.splits if_splits)

lemma canRunInChannel_actions:
  assumes "a \<in> set (fst (canRunInChannel e m))"
  shows "(\<exists>i. a = MembersFetch i) \<or> (\<exists>mem req flag. a = PermissionsHas mem req flag)"
proof (cases "channel_type m = DM")
  case True
  with assms show ?thesis by (simp add: canRunInChannel_def)
next
  case False
  show ?thesis
  proof (cases "guild m")
    case None
    with False assms show ?thesis by (simp add: canRunInChannel_def)
  next
    case (Some g)
    obtain t r where tr: "resolveMe e m g = (t, r)" by (cases "resolveMe e m g")
    have t: "\<And>x. x \<in> set t \<Longrightarrow> \<exists>i. x = MembersFetch i"
      using resolveMe_actions[of _ e m g] tr by simp
    from assms False Some tr have "a \<in> set t \<or> (\<exists>mem. a = PermissionsHas mem requiredPermissions False)"
      by (auto simp: canRunInChannel_def split: sum.splits option.splits)
    with t show ?thesis by blast
  qed
qed

lemma run_after_gate:
  assumes "\<not> author_bot m" and "\<not> truthy (webhookID m)" and "canRunInChannel e m = (t, Inr True)"
  shows "CoreEvent_run e m =
     (case getMentionPrefix (client_id e) (content m) of
        Some mp \<Rightarrow>
          if length (content m) = length mp then (t @ [EmitMentionPrefixOnly m], Inr ())
          else (t @ [EmitPrefixedMessage m (StringPrefix mp)], Inr ())
      | None \<Rightarrow>
          (case regexPrefix e of
             Some r \<Rightarrow> (t @ [EmitPrefixedMessage m (RegexPrefix r)], Inr ())
           | None \<Rightarrow>
               (case fetchPrefix e m of
                  Inl err \<Rightarrow> (t @ [FetchPrefix m], Inl err)
                | Inr ps \<Rightarrow>
                    (case getPrefix (content m) ps of
                       None \<Rightarrow> (t @ [FetchPrefix m], Inr ())
                     | Some parsed \<Rightarrow>
                         (t @ [FetchPrefix m, EmitPrefixedMessage m (StringPrefix parsed)], Inr ())))))"
proof -
  have nonempty: "\<And>mp. getMentionPrefix (client_id e) (content m) = Some mp \<Longrightarrow> mp \<noteq> []"
    by (auto simp: getMentionPrefix_def substr_def Let_def split: option.splits if_splits)
  show ?thesis
  proof (cases "getMentionPrefix (client_id e) (content m)")
    case None
    with assms show ?thesis by (simp add: CoreEvent_run_def truthy_def)
  next
    case (Some mp)
    with nonempty have "mp \<noteq> []" by simp
    with Some assms show ?thesis by (simp add: CoreEvent_run_def truthy_def)
  qed
qed

lemma getMentionPrefix_known:
  assumes "i \<noteq> []"
  shows "getMentionPrefix (Some i) c =
     (let off = (if 2 < length c \<and> c ! 2 = CHR ''!'' then 3 else 2) in
      if 20 \<le> length c \<and> take 2 c = ''<@'' \<and> off + length i < length c
         \<and> c ! (off + length i) = CHR ''>'' \<and> take (length i) (drop off c) = i
      then Some (take (off + length i + 1) c) else None)"
proof (cases "20 \<le> length c \<and> take 2 c = ''<@''")
  case False
  then show ?thesis using assms
    by (auto simp: getMentionPrefix_def startsWith_open Let_def)
next
  case True
  then have "2 < length c" by simp
  with True assms show ?thesis
    by (simp add: getMentionPrefix_def startsWith_open substr_def charAt_eq Let_def)
qed

lemma getMentionPrefix_token:
  assumes "getMentionPrefix (Some i) c = Some tok"
  shows "length tok = (if 2 < length c \<and> c ! 2 = CHR ''!'' then 3 else 2) + length i + 1
         \<and> take (length tok) c = tok"
proof -
  from assms have i: "i \<noteq> []" by (auto simp: getMentionPrefix_def split: if_splits)
  from assms show ?thesis
    unfolding getMentionPrefix_known[OF i] Let_def
    by (auto split: if_splits)
qed

text \<open>
  C2. For a known (non-empty) identifier \<open>i\<close>, mention detection on content \<open>c\<close> returns the
  first \<open>off + length i + 1\<close> code units of \<open>c\<close> exactly when \<open>c\<close> has at least 20 code units,
  starts with \<^verbatim>\<open><@\<close>, has \<^verbatim>\<open>>\<close> at index \<open>off + length i\<close>, and carries \<open>i\<close> itself in the
  \<open>length i\<close> code units from \<open>off\<close> on, where \<open>off\<close> is 3 when the code unit at index 2 is
  \<^verbatim>\<open>!\<close> and 2 otherwise; in every other case it returns nothing. A returned token has that
  length and is an initial segment of \<open>c\<close>. When nothing is detected, a message that passed
  the gate goes to the next tier: the configured pattern is emitted as the prefix, and without
  a pattern the prefixes are fetched.
\<close>

theorem mention_detection:
  "(i \<noteq> [] \<longrightarrow>
      getMentionPrefix (Some i) c =
        (let off = (if 2 < length c \<and> c ! 2 = CHR ''!'' then 3 else 2) in
         if 20 \<le> length c \<and> take 2 c = ''<@'' \<and> off + length i < length c
            \<and> c ! (off + length i) = CHR ''>'' \<and> take (length i) (drop off c) = i
         then Some (take (off + length i + 1) c) else None))
   \<and> (getMentionPrefix (Some i) c = Some tok \<longrightarrow>
        length tok = (if 2 < length c \<and> c ! 2 = CHR ''!'' then 3 else 2) + length i + 1
        \<and> take (length tok) c = tok)
   \<and> (\<not> author_bot m \<and> \<not> truthy (webhookID m) \<and> canRunInChannel e m = (t, Inr True)
        \<and> getMentionPrefix (client_id e) (content m) = None \<longrightarrow>
        (case regexPrefix e of
           Some r \<Rightarrow> CoreEvent_run e m = (t @ [EmitPrefixedMessage m (RegexPrefix r)], Inr ())
         | None \<Rightarrow> (\<exists>rest res. CoreEvent_run e m = (t @ FetchPrefix m # rest, res))))"
proof (intro conjI impI)
  assume "i \<noteq> []"
  then show "getMentionPrefix (Some i) c =
        (let off = (if 2 < length c \<and> c ! 2 = CHR ''!'' then 3 else 2) in
         if 20 \<le> length c \<and> take 2 c = ''<@'' \<and> off + length i < length c
            \<and> c ! (off + length i) = CHR ''>'' \<and> take (length i) (drop off c) = i
         then Some (take (off + length i + 1) c) else None)"
    by (rule getMentionPrefix_known)
next
  assume "getMentionPrefix (Some i) c = Some tok"
  then show "length tok = (if 2 < length c \<and> c ! 2 = CHR ''!'' then 3 else 2) + length i + 1"
    using getMentionPrefix_token by blast
next
  assume "getMentionPrefix (Some i) c = Some tok"
  then show "take (length tok) c = tok"
    using getMentionPrefix_token by blast
next
  assume h: "\<not> author_bot m \<and> \<not> truthy (webhookID m) \<and> canRunInChannel e m = (t, Inr True)
        \<and> getMentionPrefix (client_id e) (content m) = None"
  then have "CoreEvent_run e m =
       (case regexPrefix e of
             Some r \<Rightarrow> (t @ [EmitPrefixedMessage m (RegexPrefix r)], Inr ())
           | None \<Rightarrow>
               (case fetchPrefix e m of
                  Inl err \<Rightarrow> (t @ [FetchPrefix m], Inl err)
                | Inr ps \<Rightarrow>
                    (case getPrefix (content m) ps of
                       None \<Rightarrow> (t @ [FetchPrefix m], Inr ())
                     | Some parsed \<Rightarrow>
                         (t @ [FetchPrefix m, EmitPrefixedMessage m (StringPrefix parsed)], Inr ()))))"
    by (simp add: run_after_gate)
  then show "case regexPrefix e of
           Some r \<Rightarrow> CoreEvent_run e m = (t @ [EmitPrefixedMessage m (RegexPrefix r)], Inr ())
         | None \<Rightarrow> (\<exists>rest res. CoreEvent_run e m = (t @ FetchPrefix m # rest, res))"
    by (auto split: option.splits sum.splits)
qed

lemma dm_gate: "canRunInChannel e (dm_message c) = ([], Inr True)"
  by (simp add: canRunInChannel_def dm_message_def)

theorem mention_detection_witness:
  "bot_id \<noteq> []
   \<and> getMentionPrefix (Some bot_id) ''<@!123456789012345678> ping'' = Some ''<@!123456789012345678>''
   \<and> length ''<@!123456789012345678>'' = 3 + length bot_id + 1
   \<and> getMentionPrefix (Some bot_id) ''<@123456789012345678 ping'' = None
   \<and> \<not> author_bot (dm_message ''<@123456789012345678 ping'')
   \<and> \<not> truthy (webhookID (dm_message ''<@123456789012345678 ping''))
   \<and> canRunInChannel (example_env (Some bot_id) (Some ()) NoPrefixes)
        (dm_message ''<@123456789012345678 ping'') = ([], Inr True)
   \<and> CoreEvent_run (example_env (Some bot_id) (Some ()) NoPrefixes)
        (dm_message ''<@123456789012345678 ping'')
      = ([EmitPrefixedMessage (dm_message ''<@123456789012345678 ping'') (RegexPrefix ())], Inr ())"
proof -
  note A = mention_detection[of bot_id "''<@!123456789012345678> ping''" "''<@!123456789012345678>''"
      "dm_message ''<@123456789012345678 ping''" "example_env (Some bot_id) (Some ()) NoPrefixes" "[]"]
  note B = mention_detection[of bot_id "''<@123456789012345678 ping''" "''''"
      "dm_message ''<@123456789012345678 ping''" "example_env (Some bot_id) (Some ()) NoPrefixes" "[]"]
  have h1: "bot_id \<noteq> []" by (simp add: bot_id_def)
  have a1: "getMentionPrefix (Some bot_id) ''<@!123456789012345678> ping'' = Some ''<@!123456789012345678>''"
    using A h1 by (simp add: bot_id_def)
  have a2: "length ''<@!123456789012345678>'' = 3 + length bot_id + 1"
    using A a1 by (simp add: bot_id_def)
  have b1: "getMentionPrefix (Some bot_id) ''<@123456789012345678 ping'' = None"
    using B h1 by (simp add: bot_id_def)
  have h2: "\<not> author_bot (dm_message ''<@123456789012345678 ping'')"
    and h3: "\<not> truthy (webhookID (dm_message ''<@123456789012345678 ping''))"
    by (simp_all add: dm_message_def truthy_def)
  have h4: "canRunInChannel (example_env (Some bot_id) (Some ()) NoPrefixes)
        (dm_message ''<@123456789012345678 ping'') = ([], Inr True)"
    by (rule dm_gate)
  have h5: "getMentionPrefix (client_id (example_env (Some bot_id) (Some ()) NoPrefixes))
       (content (dm_message ''<@123456789012345678 ping'')) = None"
    using b1 by (simp add: example_env_def dm_message_def)
  have rx: "regexPrefix (example_env (Some bot_id) (Some ()) NoPrefixes) = Some ()"
    by (simp add: example_env_def)
  have b2: "CoreEvent_run (example_env (Some bot_id) (Some ()) NoPrefixes)
        (dm_message ''<@123456789012345678 ping'')
      = ([EmitPrefixedMessage (dm_message ''<@123456789012345678 ping'') (RegexPrefix ())], Inr ())"
    using B h2 h3 h4 h5 rx by simp
  from h1 a1 a2 b1 h2 h3 h4 b2 show ?thesis by blast
qed

lemma gate_emits_nothing:
  assumes "canRunInChannel e m = (t, r)"
  shows "EmitPrefixedMessage m' p \<notin> set t" and "EmitMentionPrefixOnly m' \<notin> set t"
    and "FetchPrefix m' \<notin> set t"
  using canRunInChannel_actions[of _ e m] assms by auto

lemma bare_mention_content:
  assumes "getMentionPrefix cid c = Some mp" and "length c = length mp"
  shows "c = mp"
proof -
  from assms(1) obtain i where "cid = Some i" by (cases cid) (auto simp: getMentionPrefix_def)
  with assms(1) have "take (length mp) c = mp" using getMentionPrefix_token by blast
  with assms(2) show ?thesis by simp
qed

text \<open>
  C3. When a message that passed the bot filter and the gate has a content exactly as long as
  the detected mention token, the handler emits the mention-only event and nothing else
  after the gate: no prefixed-message event is emitted, and the content is the token itself.
\<close>

theorem bare_mention_is_mention_only:
  assumes "\<not> author_bot m" and "\<not> truthy (webhookID m)"
    and "canRunInChannel e m = (t, Inr True)"
    and "getMentionPrefix (client_id e) (content m) = Some mp"
    and "length (content m) = length mp"
  shows "CoreEvent_run e m = (t @ [EmitMentionPrefixOnly m], Inr ())
         \<and> (\<forall>m' p. EmitPrefixedMessage m' p \<notin> set (fst (CoreEvent_run e m)))
         \<and> content m = mp"
proof -
  have run: "CoreEvent_run e m = (t @ [EmitMentionPrefixOnly m], Inr ())"
    using assms by (simp add: run_after_gate)
  have "\<And>m' p. EmitPrefixedMessage m' p \<notin> set t"
    using gate_emits_nothing(1)[OF assms(3)] by simp
  with run have "\<forall>m' p. EmitPrefixedMessage m' p \<notin> set (fst (CoreEvent_run e m))"
    by simp
  moreover have "content m = mp"
    using assms(4,5) by (rule bare_mention_content)
  ultimately show ?thesis using run by blast
qed

lemma bot_mention_plain: "getMentionPrefix (Some bot_id) (''<@123456789012345678>'' @ rest) = Some ''<@123456789012345678>''"
  by (simp add: getMentionPrefix_def bot_id_def startsWith_def charAt_def substr_def)

theorem bare_mention_is_mention_only_witness:
  "\<not> author_bot (guild_message ''<@123456789012345678>'' None)
   \<and> \<not> truthy (webhookID (guild_message ''<@123456789012345678>'' None))
   \<and> canRunInChannel (example_env (Some bot_id) (Some ()) (OnePrefix ''<@''))
        (guild_message ''<@123456789012345678>'' None)
       = ([MembersFetch bot_id, PermissionsHas (Member bot_id) requiredPermissions False], Inr True)
   \<and> getMentionPrefix (client_id (example_env (Some bot_id) (Some ()) (OnePrefix ''<@'')))
        (content (guild_message ''<@123456789012345678>'' None)) = Some ''<@123456789012345678>''
   \<and> length (content (guild_message ''<@123456789012345678>'' None)) = length ''<@123456789012345678>''
   \<and> CoreEvent_run (example_env (Some bot_id) (Some ()) (OnePrefix ''<@''))
        (guild_message ''<@123456789012345678>'' None)
       = ([MembersFetch bot_id, PermissionsHas (Member bot_id) requiredPermissions False,
           EmitMentionPrefixOnly (guild_message ''<@123456789012345678>'' None)], Inr ())"
proof -
  let ?e = "example_env (Some bot_id) (Some ()) (OnePrefix ''<@'')"
  let ?m = "guild_message ''<@123456789012345678>'' None"
  have h1: "\<not> author_bot ?m" and h2: "\<not> truthy (webhookID ?m)"
    by (simp_all add: guild_message_def truthy_def)
  have h3: "canRunInChannel ?e ?m
       = ([MembersFetch bot_id, PermissionsHas (Member bot_id) requiredPermissions False], Inr True)"
    by (simp add: canRunInChannel_def resolveMe_def guild_message_def example_env_def bot_id_def
        requiredPermissions_def)
  have h4: "getMentionPrefix (client_id ?e) (content ?m) = Some ''<@123456789012345678>''"
    using bot_mention_plain[of "[]"] by (simp add: example_env_def guild_message_def)
  have h5: "length (content ?m) = length ''<@123456789012345678>''"
    by (simp add: guild_message_def)
  from bare_mention_is_mention_only[OF h1 h2 h3 h4 h5]
  have "CoreEvent_run ?e ?m
       = ([MembersFetch bot_id, PermissionsHas (Member bot_id) requiredPermissions False]
          @ [EmitMentionPrefixOnly ?m], Inr ())"
    by (rule conjunct1)
  with h1 h2 h3 h4 h5 show ?thesis by simp
qed

text \<open>
  C1. For a message that passed the bot filter and the gate: when the mention prefix matches,
  that is, a mention token is detected and text follows it (a content that is exactly the
  token is the mention-only condition and not a prefix match), the prefixed-message event
  carries the mention token, whatever pattern is configured and whatever the prefix fetch
  would return; when no mention is detected and a pattern is configured, the event carries
  the pattern; and whenever a mention is detected or a pattern is configured, the prefixes
  are never fetched.
\<close>

theorem prefix_precedence:
  assumes "\<not> author_bot m" and "\<not> truthy (webhookID m)"
    and "canRunInChannel e m = (t, Inr True)"
  shows "(getMentionPrefix (client_id e) (content m) = Some mp \<and> length (content m) \<noteq> length mp \<longrightarrow>
            CoreEvent_run e m = (t @ [EmitPrefixedMessage m (StringPrefix mp)], Inr ()))
       \<and> (getMentionPrefix (client_id e) (content m) = None \<and> regexPrefix e = Some r \<longrightarrow>
            CoreEvent_run e m = (t @ [EmitPrefixedMessage m (RegexPrefix r)], Inr ()))
       \<and> (getMentionPrefix (client_id e) (content m) \<noteq> None \<or> regexPrefix e \<noteq> None \<longrightarrow>
            (\<forall>m'. FetchPrefix m' \<notin> set (fst (CoreEvent_run e m))))"
proof (intro conjI impI)
  assume "getMentionPrefix (client_id e) (content m) = Some mp \<and> length (content m) \<noteq> length mp"
  with assms show "CoreEvent_run e m = (t @ [EmitPrefixedMessage m (StringPrefix mp)], Inr ())"
    by (simp add: run_after_gate)
next
  assume "getMentionPrefix (client_id e) (content m) = None \<and> regexPrefix e = Some r"
  with assms show "CoreEvent_run e m = (t @ [EmitPrefixedMessage m (RegexPrefix r)], Inr ())"
    by (simp add: run_after_gate)
next
  assume tier: "getMentionPrefix (client_id e) (content m) \<noteq> None \<or> regexPrefix e \<noteq> None"
  have t: "\<And>m'. FetchPrefix m' \<notin> set t"
    using gate_emits_nothing(3)[OF assms(3)] by simp
  from tier have "set (fst (CoreEvent_run e m)) \<subseteq>
      set t \<union> {EmitMentionPrefixOnly m} \<union> range (EmitPrefixedMessage m)"
    unfolding run_after_gate[OF assms] by (auto split: option.splits)
  with t show "\<forall>m'. FetchPrefix m' \<notin> set (fst (CoreEvent_run e m))"
    by auto
qed

theorem prefix_precedence_witness:
  "\<not> author_bot (dm_message ''<@123456789012345678> ping'')
   \<and> \<not> truthy (webhookID (dm_message ''<@123456789012345678> ping''))
   \<and> canRunInChannel (example_env (Some bot_id) (Some ()) (OnePrefix ''<@''))
        (dm_message ''<@123456789012345678> ping'') = ([], Inr True)
   \<and> getMentionPrefix (client_id (example_env (Some bot_id) (Some ()) (OnePrefix ''<@'')))
        (content (dm_message ''<@123456789012345678> ping'')) = Some ''<@123456789012345678>''
   \<and> length (content (dm_message ''<@123456789012345678> ping'')) \<noteq> length ''<@123456789012345678>''
   \<and> regexPrefix (example_env (Some bot_id) (Some ()) (OnePrefix ''<@'')) = Some ()
   \<and> getPrefix (content (dm_message ''<@123456789012345678> ping'')) (OnePrefix ''<@'') = Some ''<@''
   \<and> CoreEvent_run (example_env (Some bot_id) (Some ()) (OnePrefix ''<@''))
        (dm_message ''<@123456789012345678> ping'')
       = ([EmitPrefixedMessage (dm_message ''<@123456789012345678> ping'')
             (StringPrefix ''<@123456789012345678>'')], Inr ())
   \<and> getMentionPrefix (client_id (example_env None (Some ()) (OnePrefix ''<@'')))
        (content (dm_message ''<@123456789012345678> ping'')) = None
   \<and> CoreEvent_run (example_env None (Some ()) (OnePrefix ''<@''))
        (dm_message ''<@123456789012345678> ping'')
       = ([EmitPrefixedMessage (dm_message ''<@123456789012345678> ping'') (RegexPrefix ())], Inr ())
   \<and> (\<forall>m'. FetchPrefix m' \<notin> set (fst (CoreEvent_run (example_env None (Some ()) (OnePrefix ''<@''))
        (dm_message ''<@123456789012345678> ping''))))"
proof -
  let ?e = "example_env (Some bot_id) (Some ()) (OnePrefix ''<@'')"
  let ?e' = "example_env None (Some ()) (OnePrefix ''<@'')"
  let ?m = "dm_message ''<@123456789012345678> ping''"
  have h1: "\<not> author_bot ?m" and h2: "\<not> truthy (webhookID ?m)"
    by (simp_all add: dm_message_def truthy_def)
  have h3: "canRunInChannel ?e ?m = ([], Inr True)" by (rule dm_gate)
  have h3': "canRunInChannel ?e' ?m = ([], Inr True)" by (rule dm_gate)
  have g: "getMentionPrefix (client_id ?e) (content ?m) = Some ''<@123456789012345678>''"
    using bot_mention_plain[of "'' ping''"] by (simp add: example_env_def dm_message_def)
  have len: "length (content ?m) \<noteq> length ''<@123456789012345678>''"
    by (simp add: dm_message_def)
  have rx: "regexPrefix ?e = Some ()" and rx': "regexPrefix ?e' = Some ()"
    by (simp_all add: example_env_def)
  have dyn: "getPrefix (content ?m) (OnePrefix ''<@'') = Some ''<@''"
    by (simp add: getPrefix_def dm_message_def startsWith_def)
  have g': "getMentionPrefix (client_id ?e') (content ?m) = None"
    by (simp add: example_env_def getMentionPrefix_def)
  note A = prefix_precedence[OF h1 h2 h3, of "''<@123456789012345678>''" "()"]
  note B = prefix_precedence[OF h1 h2 h3', of "''<@123456789012345678>''" "()"]
  have a: "CoreEvent_run ?e ?m = ([EmitPrefixedMessage ?m (StringPrefix ''<@123456789012345678>'')], Inr ())"
    using A g len by simp
  have b: "CoreEvent_run ?e' ?m = ([EmitPrefixedMessage ?m (RegexPrefix ())], Inr ())"
    using B g' rx' by simp
  have c: "\<forall>m'. FetchPrefix m' \<notin> set (fst (CoreEvent_run ?e' ?m))"
    using B rx' by blast
  from h1 h2 h3 g len rx dyn a g' b c show ?thesis by blast
qed

text \<open>
  C4, as amended. With the bot identifier \<^verbatim>\<open>123456789012345678\<close>, a message that passed the bot
  filter and the gate and whose text is \<^verbatim>\<open><@123456789012345678>\<close> (21 code units, exactly the
  mention token) gives the mention-only event and no prefix; with one more trailing space
  the text is longer than the token and the prefixed-message event is emitted with the token
  as the prefix.
\<close>

theorem mention_scenario:
  assumes "client_id e = Some ''123456789012345678''"
    and "\<not> author_bot m" and "\<not> truthy (webhookID m)"
    and "canRunInChannel e m = (t, Inr True)"
  shows "(content m = ''<@123456789012345678>'' \<longrightarrow>
            CoreEvent_run e m = (t @ [EmitMentionPrefixOnly m], Inr ()))
       \<and> (content m = ''<@123456789012345678> '' \<longrightarrow>
            CoreEvent_run e m
              = (t @ [EmitPrefixedMessage m (StringPrefix ''<@123456789012345678>'')], Inr ()))"
proof (intro conjI impI)
  assume c: "content m = ''<@123456789012345678>''"
  have "getMentionPrefix (client_id e) (content m) = Some ''<@123456789012345678>''"
    using bot_mention_plain[of "[]"] assms(1) c by (simp add: bot_id_def)
  with c show "CoreEvent_run e m = (t @ [EmitMentionPrefixOnly m], Inr ())"
    by (simp add: run_after_gate[OF assms(2,3,4)])
next
  assume c: "content m = ''<@123456789012345678> ''"
  have "getMentionPrefix (client_id e) (content m) = Some ''<@123456789012345678>''"
    using bot_mention_plain[of "'' ''"] assms(1) c by (simp add: bot_id_def)
  with c show "CoreEvent_run e m
              = (t @ [EmitPrefixedMessage m (StringPrefix ''<@123456789012345678>'')], Inr ())"
    by (simp add: run_after_gate[OF assms(2,3,4)])
qed

text \<open>
  The scenario as stated, with the trailing space, does not give the mention-only event.
\<close>

theorem mention_scenario_counterexample:
  "CoreEvent_run (example_env (Some ''123456789012345678'') None NoPrefixes)
      (dm_message ''<@123456789012345678> '')
     = ([EmitPrefixedMessage (dm_message ''<@123456789012345678> '')
           (StringPrefix ''<@123456789012345678>'')], Inr ())
   \<and> EmitMentionPrefixOnly (dm_message ''<@123456789012345678> '')
       \<notin> set (fst (CoreEvent_run (example_env (Some ''123456789012345678'') None NoPrefixes)
                  (dm_message ''<@123456789012345678> '')))"
proof -
  let ?e = "example_env (Some ''123456789012345678'') None NoPrefixes"
  let ?m = "dm_message ''<@123456789012345678> ''"
  have h1: "\<not> author_bot ?m" and h2: "\<not> truthy (webhookID ?m)"
    by (simp_all add: dm_message_def truthy_def)
  have g: "getMentionPrefix (client_id ?e) (content ?m) = Some ''<@123456789012345678>''"
    using bot_mention_plain[of "'' ''"] by (simp add: example_env_def dm_message_def bot_id_def)
  have len: "length (content ?m) \<noteq> length ''<@123456789012345678>''"
    by (simp add: dm_message_def)
  have "CoreEvent_run ?e ?m
     = ([EmitPrefixedMessage ?m (StringPrefix ''<@123456789012345678>'')], Inr ())"
    using run_after_gate[OF h1 h2 dm_gate, of ?e] g len by simp
  then show ?thesis by simp
qed

theorem mention_scenario_witness:
  "client_id (example_env (Some ''123456789012345678'') None NoPrefixes) = Some ''123456789012345678''
   \<and> \<not> author_bot (dm_message ''<@123456789012345678>'')
   \<and> \<not> truthy (webhookID (dm_message ''<@123456789012345678>''))
   \<and> canRunInChannel (example_env (Some ''123456789012345678'') None NoPrefixes)
        (dm_message ''<@123456789012345678>'') = ([], Inr True)
   \<and> content (dm_message ''<@123456789012345678>'') = ''<@123456789012345678>''
   \<and> CoreEvent_run (example_env (Some ''123456789012345678'') None NoPrefixes)
        (dm_message ''<@123456789012345678>'')
       = ([EmitMentionPrefixOnly (dm_message ''<@123456789012345678>'')], Inr ())
   \<and> \<not> author_bot (dm_message ''<@123456789012345678> '')
   \<and> \<not> truthy (webhookID (dm_message ''<@123456789012345678> ''))
   \<and> canRunInChannel (example_env (Some ''123456789012345678'') None NoPrefixes)
        (dm_message ''<@123456789012345678> '') = ([], Inr True)
   \<and> content (dm_message ''<@123456789012345678> '') = ''<@123456789012345678> ''
   \<and> CoreEvent_run (example_env (Some ''123456789012345678'') None NoPrefixes)
        (dm_message ''<@123456789012345678> '')
       = ([EmitPrefixedMessage (dm_message ''<@123456789012345678> '')
           (StringPrefix ''<@123456789012345678>'')], Inr ())"
proof -
  let ?e = "example_env (Some ''123456789012345678'') None NoPrefixes"
  let ?m = "dm_message ''<@123456789012345678>''"
  let ?m' = "dm_message ''<@123456789012345678> ''"
  have h0: "client_id ?e = Some ''123456789012345678''" by (simp add: example_env_def)
  have h1: "\<not> author_bot ?m" and h2: "\<not> truthy (webhookID ?m)"
    and h1': "\<not> author_bot ?m'" and h2': "\<not> truthy (webhookID ?m')"
    by (simp_all add: dm_message_def truthy_def)
  have h3: "canRunInChannel ?e ?m = ([], Inr True)" and h3': "canRunInChannel ?e ?m' = ([], Inr True)"
    by (rule dm_gate)+
  have c: "content ?m = ''<@123456789012345678>''" and c': "content ?m' = ''<@123456789012345678> ''"
    by (simp_all add: dm_message_def)
  have a: "CoreEvent_run ?e ?m = ([EmitMentionPrefixOnly ?m], Inr ())"
    using mention_scenario[OF h0 h1 h2 h3] c by simp
  have b: "CoreEvent_run ?e ?m'
       = ([EmitPrefixedMessage ?m' (StringPrefix ''<@123456789012345678>'')], Inr ())"
    using mention_scenario[OF h0 h1' h2' h3'] c' by simp
  from h0 h1 h2 h3 c a h1' h2' h3' c' b show ?thesis by blast
qed







section \<open>Properties of the single precondition node\<close>

text \<open>
  C6. When the node's name is absent from the registry, running the node throws: the result
  is the error \<^verbatim>\<open>The precondition "name" is not available.\<close>, never a returned value, and no
  precondition is invoked.
\<close>

theorem absent_precondition_throws:
  assumes "preconditions (name this) = None"
  shows "fst (PreconditionContainerSingle_run preconditions this msg command caller) = []
       \<and> snd (PreconditionContainerSingle_run preconditions this msg command caller)
           = Inl (Error (''The precondition '' @ [CHR 0x22] @ name this @ [CHR 0x22] @ '' is not available.''))
       \<and> (\<forall>res. snd (PreconditionContainerSingle_run preconditions this msg command caller) \<noteq> Inr res)"
  using assms by (simp add: PreconditionContainerSingle_run_def)

theorem absent_precondition_throws_witness:
  "example_registry (name (example_node ''ownerOnly'')) = None
   \<and> PreconditionContainerSingle_run example_registry (example_node ''ownerOnly'') ''message'' ''command''
        (Some [''level'' \<mapsto> 1])
      = ([], Inl (Error (''The precondition '' @ [CHR 0x22] @ ''ownerOnly'' @ [CHR 0x22] @ '' is not available.'')))"
proof -
  have h: "example_registry (name (example_node ''ownerOnly'')) = None"
    by (simp add: example_registry_def example_node_def)
  have n: "name (example_node ''ownerOnly'') = ''ownerOnly''"
    by (simp add: example_node_def)
  from absent_precondition_throws[of example_registry "example_node ''ownerOnly''" "''message''" "''command''"
      "Some [''level'' \<mapsto> 1]"] h
  have "PreconditionContainerSingle_run example_registry (example_node ''ownerOnly'') ''message'' ''command''
        (Some [''level'' \<mapsto> 1])
      = ([], Inl (Error (''The precondition '' @ [CHR 0x22] @ name (example_node ''ownerOnly'') @ [CHR 0x22] @ '' is not available.'')))"
    by (simp add: prod_eq_iff)
  with h n show ?thesis by simp
qed

text \<open>
  C7. When the node's name is present in the registry, the precondition found there is
  invoked once, with the message, the command and the merged context: at every key the
  node's own value if the node's context has the key, and the caller's value (if any)
  otherwise. The node returns what the precondition returns.
\<close>

theorem present_precondition_merged_context:
  assumes "preconditions (name this) = Some precondition"
  shows "PreconditionContainerSingle_run preconditions this msg command caller =
     (let merged = (\<lambda>k. case node_context this k of
                           Some v \<Rightarrow> Some v
                         | None \<Rightarrow> (case caller of None \<Rightarrow> None | Some c \<Rightarrow> c k))
      in ([Invocation (name this) msg command merged], Inr (precondition msg command merged)))"
proof -
  let ?ctx = "case caller of None \<Rightarrow> Map.empty | Some c \<Rightarrow> c"
  have "(?ctx ++ node_context this) =
          (\<lambda>k. case node_context this k of
                  Some v \<Rightarrow> Some v
                | None \<Rightarrow> (case caller of None \<Rightarrow> None | Some c \<Rightarrow> c k))"
    by (rule ext) (simp add: map_add_def split: option.splits)
  then show ?thesis
    using assms by (simp add: PreconditionContainerSingle_run_def Let_def)
qed

theorem present_precondition_merged_context_witness:
  "example_registry (name (example_node ''nsfw'')) = Some example_precondition
   \<and> snd (PreconditionContainerSingle_run example_registry (example_node ''nsfw'') ''message'' ''command''
          (Some [''level'' \<mapsto> 1, ''caller'' \<mapsto> 7])) = Inr True
   \<and> (case fst (PreconditionContainerSingle_run example_registry (example_node ''nsfw'') ''message''
                  ''command'' (Some [''level'' \<mapsto> 1, ''caller'' \<mapsto> 7])) of
        [Invocation n msg command merged] \<Rightarrow>
          n = ''nsfw'' \<and> merged ''level'' = Some 2 \<and> merged ''caller'' = Some 7 \<and> merged ''other'' = None
      | _ \<Rightarrow> False)"
proof -
  have h: "example_registry (name (example_node ''nsfw'')) = Some example_precondition"
    by (simp add: example_registry_def example_node_def)
  note T = present_precondition_merged_context[where preconditions = example_registry
      and this = "example_node ''nsfw''" and precondition = example_precondition and msg = "''message''"
      and command = "''command''" and caller = "Some [''level'' \<mapsto> 1, ''caller'' \<mapsto> 7]", OF h]
  show ?thesis
    using h unfolding T by (simp add: example_node_def example_precondition_def)
qed

section \<open>Properties of the listener\<close>

lemma ran_append: "ran (xs @ ys) = ran xs @ ran ys"
  by (induction xs rule: ran.induct) simp_all

lemma unhandled_append: "unhandled (xs @ ys) = unhandled xs @ unhandled ys"
  by (induction xs rule: unhandled.induct) simp_all

lemma run_promise:
  "promise (Listener__run this r client_emit) =
     (case r of Returns v \<Rightarrow> Fulfilled | Resolves v \<Rightarrow> Fulfilled
      | Rejects err \<Rightarrow> settle (client_emit (ListenerError err this))
      | Throws err \<Rightarrow> settle (client_emit (ListenerError err this))
      | NeverSettles \<Rightarrow> Pending)"
  by (cases r) (simp_all add: Listener__run_def)

lemma run_actions:
  "now (Listener__run this r client_emit) @ later (Listener__run this r client_emit) =
     (case r of Returns v \<Rightarrow> [] | Resolves v \<Rightarrow> []
      | Rejects err \<Rightarrow> [ClientEmit (ListenerError err this)]
      | Throws err \<Rightarrow> [ClientEmit (ListenerError err this)]
      | NeverSettles \<Rightarrow> [])"
  by (cases r) (simp_all add: Listener__run_def)

lemma run_only_emits:
  "a \<in> set (now (Listener__run this r client_emit)) \<union> set (later (Listener__run this r client_emit))
     \<Longrightarrow> \<exists>ev. a = ClientEmit ev"
  by (cases r) (auto simp: Listener__run_def)

lemma runOnce_now: "now (Listener__runOnce this r client_emit unloaded) = now (Listener__run this r client_emit)"
  by (simp add: Listener__runOnce_def Let_def split: settled.splits)

lemma runOnce_later:
  "later (Listener__runOnce this r client_emit unloaded) =
     (if promise (Listener__run this r client_emit) = Fulfilled
      then later (Listener__run this r client_emit) @ [StoreUnload this]
      else later (Listener__run this r client_emit))"
  by (simp add: Listener__runOnce_def Let_def split: settled.splits)

lemma runOnce_promise:
  "promise (Listener__runOnce this r client_emit unloaded) =
     (if promise (Listener__run this r client_emit) = Fulfilled then settle unloaded
      else promise (Listener__run this r client_emit))"
  by (simp add: Listener__runOnce_def Let_def split: settled.splits)

lemma wrapper_now_only_emits:
  "a \<in> set (now (wrapper h r client_emit unloaded)) \<Longrightarrow> \<exists>ev. a = ClientEmit ev"
  using run_only_emits[of a "snd h" r client_emit]
  by (cases h; cases "fst h") (auto simp: wrapper_def runOnce_now)

lemma set_remove_first: "set (remove_first P xs) \<subseteq> set xs"
  by (induction xs) auto

lemma filter_remove_first:
  assumes "\<And>x. P x \<Longrightarrow> \<not> Q x"
  shows "filter Q (remove_first P xs) = filter Q xs"
  using assms by (induction xs) auto

lemma set_apply_off: "set (apply_call (CallOff em ev h) subs) \<subseteq> set subs"
  using set_remove_first[of _ "rev subs"] by auto

lemma onUnload_calls:
  assumes "onUnload piece = Inr calls"
  shows "calls = [] \<or> (\<not> once piece \<and> (\<exists>em f. calls = [CallOff em (event piece) (f, piece)]))"
  using assms by (auto simp: onUnload_def split: if_splits option.splits)

lemma store_unload_effect:
  assumes "store_unload piece s = Inr s'"
  shows "observed s' = observed s" and "pending s' = pending s"
    and "store s' = removeAll piece (store s)"
    and "set (subscriptions s') \<subseteq> set (subscriptions s)"
    and "once this \<Longrightarrow> filter (\<lambda>x. sub_listener x = this) (subscriptions s')
                          = filter (\<lambda>x. sub_listener x = this) (subscriptions s)"
proof -
  from assms obtain calls where c: "onUnload piece = Inr calls"
    and s': "s' = s\<lparr>subscriptions := fold apply_call calls (subscriptions s),
                    store := removeAll piece (store s)\<rparr>"
    by (auto simp: store_unload_def split: sum.splits)
  show "observed s' = observed s" "pending s' = pending s" "store s' = removeAll piece (store s)"
    by (simp_all add: s')
  from onUnload_calls[OF c] show "set (subscriptions s') \<subseteq> set (subscriptions s)"
  proof
    assume "calls = []"
    then show ?thesis by (simp add: s')
  next
    assume "\<not> once piece \<and> (\<exists>em f. calls = [CallOff em (event piece) (f, piece)])"
    then obtain em f where "calls = [CallOff em (event piece) (f, piece)]" by blast
    then have "subscriptions s' = apply_call (CallOff em (event piece) (f, piece)) (subscriptions s)"
      by (simp add: s')
    then show ?thesis using set_apply_off by metis
  qed
  assume o: "once this"
  from onUnload_calls[OF c] show "filter (\<lambda>x. sub_listener x = this) (subscriptions s')
                          = filter (\<lambda>x. sub_listener x = this) (subscriptions s)"
  proof
    assume "calls = []"
    then show ?thesis by (simp add: s')
  next
    assume "\<not> once piece \<and> (\<exists>em f. calls = [CallOff em (event piece) (f, piece)])"
    then obtain em f where n: "\<not> once piece" and calls: "calls = [CallOff em (event piece) (f, piece)]"
      by blast
    from n o have "piece \<noteq> this" by auto
    then have "\<And>x. sub_matches em (event piece) x \<and> sub_handler x = (f, piece) \<Longrightarrow> sub_listener x \<noteq> this"
      by (auto simp: sub_handler_def sub_listener_def)
    then show ?thesis
      by (simp add: s' calls rev_filter[symmetric] filter_remove_first)
  qed
qed

lemma perform_effect:
  "ran (observed (snd (perform acts s))) = ran (observed s)
   \<and> unhandled (observed (snd (perform acts s))) = unhandled (observed s)
   \<and> pending (snd (perform acts s)) = pending s
   \<and> set (subscriptions (snd (perform acts s))) \<subseteq> set (subscriptions s)
   \<and> set (store (snd (perform acts s))) \<subseteq> set (store s)
   \<and> (once this \<longrightarrow> filter (\<lambda>x. sub_listener x = this) (subscriptions (snd (perform acts s)))
                          = filter (\<lambda>x. sub_listener x = this) (subscriptions s))"
proof (induction acts s rule: perform.induct)
  case (1 s)
  then show ?case by simp
next
  case (2 ev acts s)
  then show ?case by (simp add: ran_append unhandled_append)
next
  case (3 piece acts s)
  show ?case
  proof (cases "store_unload piece s")
    case (Inl err)
    then show ?thesis by simp
  next
    case (Inr s')
    note e = store_unload_effect[OF Inr]
    from 3[OF Inr] Inr show ?thesis
      using e(1,2,3,4) e(5)[of this] by auto
  qed
qed

lemma perform_emits_only:
  assumes "\<forall>a \<in> set acts. \<exists>ev. a = ClientEmit ev"
  shows "fst (perform acts s) = Inr ()
       \<and> subscriptions (snd (perform acts s)) = subscriptions s
       \<and> store (snd (perform acts s)) = store s"
  using assms
proof (induction acts s rule: perform.induct)
  case (1 s)
  then show ?case by simp
next
  case (2 ev acts s)
  then show ?case by simp
next
  case (3 piece acts s)
  then show ?case by auto
qed

lemma deliver_effect:
  "ran (observed (deliver client_emit results subs s)) = ran (observed s) @ map sub_listener subs
   \<and> unhandled (observed (deliver client_emit results subs s)) = unhandled (observed s)
   \<and> subscriptions (deliver client_emit results subs s) = fold drop_once subs (subscriptions s)
   \<and> store (deliver client_emit results subs s) = store s
   \<and> pending (deliver client_emit results subs s)
       = pending s @ map (\<lambda>sub. (sub_handler sub, results (sub_listener sub))) subs"
proof (induction subs arbitrary: s)
  case Nil
  then show ?case by simp
next
  case (Cons sub rest)
  let ?h = "sub_handler sub"
  let ?r = "results (sub_listener sub)"
  let ?s1 = "s\<lparr>subscriptions := drop_once sub (subscriptions s),
                 observed := observed s @ [Ran (sub_listener sub)]\<rparr>"
  let ?acts = "now (wrapper ?h ?r client_emit (Inr ()))"
  let ?s2 = "snd (perform ?acts ?s1)"
  let ?s3 = "?s2\<lparr>pending := pending ?s2 @ [(?h, ?r)]\<rparr>"
  have only: "\<forall>a \<in> set ?acts. \<exists>ev. a = ClientEmit ev"
    using wrapper_now_only_emits by blast
  note p = perform_emits_only[OF only, of ?s1] perform_effect[of ?acts ?s1]
  have step: "deliver client_emit results (sub # rest) s = deliver client_emit results rest ?s3"
    by (simp add: Let_def)
  have "ran (observed ?s3) = ran (observed s) @ [sub_listener sub]"
    using p by (simp add: ran_append)
  moreover have "unhandled (observed ?s3) = unhandled (observed s)"
    using p by (simp add: unhandled_append)
  moreover have "subscriptions ?s3 = drop_once sub (subscriptions s)"
    using p by simp
  moreover have "store ?s3 = store s"
    using p by simp
  moreover have "pending ?s3 = pending s @ [(?h, ?r)]"
    using p by simp
  ultimately show ?case
    unfolding step using Cons.IH[of ?s3] by simp
qed

lemma emit_effect:
  "ran (observed (emit client_emit results em ev s))
     = ran (observed s) @ map sub_listener (filter (sub_matches em ev) (subscriptions s))
   \<and> unhandled (observed (emit client_emit results em ev s)) = unhandled (observed s)
   \<and> subscriptions (emit client_emit results em ev s)
       = fold drop_once (filter (sub_matches em ev) (subscriptions s)) (subscriptions s)
   \<and> store (emit client_emit results em ev s) = store s
   \<and> pending (emit client_emit results em ev s)
       = pending s @ map (\<lambda>sub. (sub_handler sub, results (sub_listener sub)))
                       (filter (sub_matches em ev) (subscriptions s))"
  unfolding emit_def by (rule deliver_effect)

lemma resume_effect:
  "ran (observed (resume client_emit task s)) = ran (observed s)
   \<and> pending (resume client_emit task s) = pending s
   \<and> set (subscriptions (resume client_emit task s)) \<subseteq> set (subscriptions s)
   \<and> set (store (resume client_emit task s)) \<subseteq> set (store s)
   \<and> (once this \<longrightarrow> filter (\<lambda>x. sub_listener x = this) (subscriptions (resume client_emit task s))
                          = filter (\<lambda>x. sub_listener x = this) (subscriptions s))"
proof -
  obtain h r where task: "task = (h, r)" by (cases task)
  let ?acts = "later (wrapper h r client_emit (Inr ()))"
  obtain u s1 where p: "perform ?acts s = (u, s1)" by (cases "perform ?acts s")
  then have s1: "s1 = snd (perform ?acts s)" by simp
  note e = perform_effect[of ?acts s this, folded s1]
  show ?thesis
    using e by (cases "promise (wrapper h r client_emit u)")
      (simp_all add: resume_def task p ran_append)
qed

lemma fold_resume_effect:
  "ran (observed (fold (resume client_emit) tasks s)) = ran (observed s)
   \<and> pending (fold (resume client_emit) tasks s) = pending s
   \<and> set (subscriptions (fold (resume client_emit) tasks s)) \<subseteq> set (subscriptions s)
   \<and> set (store (fold (resume client_emit) tasks s)) \<subseteq> set (store s)
   \<and> (once this \<longrightarrow> filter (\<lambda>x. sub_listener x = this) (subscriptions (fold (resume client_emit) tasks s))
                          = filter (\<lambda>x. sub_listener x = this) (subscriptions s))"
proof (induction tasks arbitrary: s)
  case Nil
  then show ?case by simp
next
  case (Cons task tasks)
  note r = resume_effect[of client_emit task s this]
  note ih = Cons.IH[of "resume client_emit task s"]
  from r ih show ?case by (simp, blast)
qed

lemma drain_effect:
  "ran (observed (drain client_emit s)) = ran (observed s)
   \<and> pending (drain client_emit s) = []
   \<and> set (subscriptions (drain client_emit s)) \<subseteq> set (subscriptions s)
   \<and> set (store (drain client_emit s)) \<subseteq> set (store s)
   \<and> (once this \<longrightarrow> filter (\<lambda>x. sub_listener x = this) (subscriptions (drain client_emit s))
                          = filter (\<lambda>x. sub_listener x = this) (subscriptions s))"
  using fold_resume_effect[of client_emit "pending s" "s\<lparr>pending := []\<rparr>" this]
  by (simp add: drain_def)

lemma perform_after_emits:
  assumes "\<forall>a \<in> set acts. \<exists>ev. a = ClientEmit ev"
  shows "perform (acts @ acts') s = perform acts' (snd (perform acts s))"
  using assms
proof (induction acts s rule: perform.induct)
  case (1 s)
  then show ?case by simp
next
  case (2 ev acts s)
  then show ?case by simp
next
  case (3 piece acts s)
  then show ?case by auto
qed

lemma store_unload_once:
  "once this \<Longrightarrow> store_unload this s = Inr (s\<lparr>store := removeAll this (store s)\<rparr>)"
  by (simp add: store_unload_def onUnload_def)

lemma run_later_only_emits:
  "\<forall>a \<in> set (later (Listener__run this r client_emit)). \<exists>ev. a = ClientEmit ev"
  using run_only_emits by blast

lemma resume_run:
  "store (resume client_emit ((Bound_run, this), r) s) = store s
   \<and> unhandled (observed (resume client_emit ((Bound_run, this), r) s))
       = unhandled (observed s)
         @ (case promise (Listener__run this r client_emit) of Rejected err \<Rightarrow> [err] | _ \<Rightarrow> [])"
proof -
  let ?acts = "later (Listener__run this r client_emit)"
  obtain u s1 where p: "perform ?acts s = (u, s1)" by (cases "perform ?acts s")
  then have s1: "s1 = snd (perform ?acts s)" by simp
  note e = perform_emits_only[OF run_later_only_emits, of this r client_emit s, folded s1]
    perform_effect[of ?acts s this, folded s1]
  show ?thesis
    using e by (cases "promise (Listener__run this r client_emit)")
      (simp_all add: resume_def wrapper_def p unhandled_append)
qed

lemma resume_runOnce_unloads:
  assumes "once this" and "promise (Listener__run this r client_emit) = Fulfilled"
  shows "this \<notin> set (store (resume client_emit ((Bound_runOnce, this), r) s))
       \<and> unhandled (observed (resume client_emit ((Bound_runOnce, this), r) s)) = unhandled (observed s)"
proof -
  let ?acts = "later (Listener__run this r client_emit)"
  let ?s1 = "snd (perform ?acts s)"
  let ?s2 = "?s1\<lparr>store := removeAll this (store ?s1)\<rparr>"
  have "perform (?acts @ [StoreUnload this]) s = perform [StoreUnload this] ?s1"
    using run_later_only_emits by (rule perform_after_emits)
  also have "\<dots> = (Inr (), ?s2)"
    by (simp add: store_unload_once[OF assms(1)])
  finally have p: "perform (?acts @ [StoreUnload this]) s = (Inr (), ?s2)" .
  have "resume client_emit ((Bound_runOnce, this), r) s = ?s2"
    using assms(2) p by (simp add: resume_def wrapper_def runOnce_later runOnce_promise settle_def)
  moreover have "unhandled (observed ?s2) = unhandled (observed s)"
    using perform_effect[of ?acts s this] by simp
  ultimately show ?thesis by simp
qed

lemma resume_runOnce_stays:
  assumes "promise (Listener__run this r client_emit) \<noteq> Fulfilled"
  shows "store (resume client_emit ((Bound_runOnce, this), r) s) = store s
       \<and> unhandled (observed (resume client_emit ((Bound_runOnce, this), r) s))
           = unhandled (observed s)
             @ (case promise (Listener__run this r client_emit) of Rejected err \<Rightarrow> [err] | _ \<Rightarrow> [])"
proof -
  let ?acts = "later (Listener__run this r client_emit)"
  obtain u s1 where p: "perform ?acts s = (u, s1)" by (cases "perform ?acts s")
  then have s1: "s1 = snd (perform ?acts s)" by simp
  note e = perform_emits_only[OF run_later_only_emits, of this r client_emit s, folded s1]
    perform_effect[of ?acts s this, folded s1]
  show ?thesis
    using e assms by (cases "promise (Listener__run this r client_emit)")
      (simp_all add: resume_def wrapper_def runOnce_later runOnce_promise p unhandled_append)
qed

lemma quiet_run_settles:
  assumes "\<forall>ev. client_emit ev = Inr ()"
  shows "promise (Listener__run this r client_emit) = (if r = NeverSettles then Pending else Fulfilled)"
  using assms by (cases r) (simp_all add: run_promise settle_def)

lemma resume_no_unhandled:
  assumes "wf_handler h" and "\<forall>ev. client_emit ev = Inr ()"
  shows "unhandled (observed (resume client_emit (h, r) s)) = unhandled (observed s)"
proof -
  obtain f this where h: "h = (f, this)" by (cases h)
  note q = quiet_run_settles[OF assms(2), of this r]
  show ?thesis
  proof (cases f)
    case Bound_run
    then show ?thesis using resume_run[of client_emit this r s] q by (simp add: h)
  next
    case Bound_runOnce
    with assms(1) have o: "once this" by (simp add: wf_handler_def h)
    show ?thesis
    proof (cases "r = NeverSettles")
      case True
      then have "promise (Listener__run this r client_emit) \<noteq> Fulfilled" using q by simp
      from resume_runOnce_stays[OF this, of s] show ?thesis using q True by (simp add: h Bound_runOnce)
    next
      case False
      then have "promise (Listener__run this r client_emit) = Fulfilled" using q by simp
      from resume_runOnce_unloads[OF o this, of s] show ?thesis by (simp add: h Bound_runOnce)
    qed
  qed
qed

lemma fold_resume_no_unhandled:
  assumes "\<forall>task \<in> set tasks. wf_handler (fst task)" and "\<forall>ev. client_emit ev = Inr ()"
  shows "unhandled (observed (fold (resume client_emit) tasks s)) = unhandled (observed s)"
  using assms(1)
proof (induction tasks arbitrary: s)
  case Nil
  then show ?case by simp
next
  case (Cons task tasks)
  obtain h r where task: "task = (h, r)" by (cases task)
  from Cons.prems have "wf_handler h" by (simp add: task)
  from resume_no_unhandled[OF this assms(2), of r s] Cons show ?case by (simp add: task)
qed

lemma fold_resume_unloads:
  assumes "once this" and "promise (Listener__run this r client_emit) = Fulfilled"
    and "((Bound_runOnce, this), r) \<in> set tasks"
  shows "this \<notin> set (store (fold (resume client_emit) tasks s))"
  using assms(3)
proof (induction tasks arbitrary: s)
  case Nil
  then show ?case by simp
next
  case (Cons task tasks)
  show ?case
  proof (cases "((Bound_runOnce, this), r) \<in> set tasks")
    case True
    then show ?thesis using Cons.IH by simp
  next
    case False
    with Cons.prems have task: "task = ((Bound_runOnce, this), r)" by simp
    have "this \<notin> set (store (resume client_emit task s))"
      using resume_runOnce_unloads[OF assms(1,2), of s] by (simp add: task)
    moreover have "set (store (fold (resume client_emit) tasks (resume client_emit task s)))
        \<subseteq> set (store (resume client_emit task s))"
      using fold_resume_effect[of client_emit tasks "resume client_emit task s" this] by blast
    ultimately show ?thesis by auto
  qed
qed

lemma resume_runOnce_store:
  "store (resume client_emit ((Bound_runOnce, p), r) s) = store s
   \<or> store (resume client_emit ((Bound_runOnce, p), r) s) = removeAll p (store s)"
proof (cases "promise (Listener__run p r client_emit) = Fulfilled")
  case False
  then show ?thesis using resume_runOnce_stays[of p r client_emit s] by simp
next
  case True
  let ?acts = "later (Listener__run p r client_emit)"
  let ?s1 = "snd (perform ?acts s)"
  have s1: "store ?s1 = store s"
    using perform_emits_only[OF run_later_only_emits, of p r client_emit s] by simp
  have p: "perform (?acts @ [StoreUnload p]) s = perform [StoreUnload p] ?s1"
    using run_later_only_emits by (rule perform_after_emits)
  show ?thesis
  proof (cases "store_unload p ?s1")
    case (Inl err)
    then have "perform (?acts @ [StoreUnload p]) s = (Inl err, ?s1)" using p by simp
    then have "store (resume client_emit ((Bound_runOnce, p), r) s) = store ?s1"
      using True by (simp add: resume_def wrapper_def runOnce_later runOnce_promise settle_def)
    with s1 show ?thesis by simp
  next
    case (Inr s')
    then have "perform (?acts @ [StoreUnload p]) s = (Inr (), s')" using p by simp
    then have "store (resume client_emit ((Bound_runOnce, p), r) s) = store s'"
      using True by (simp add: resume_def wrapper_def runOnce_later runOnce_promise settle_def)
    with store_unload_effect(3)[OF Inr] s1 show ?thesis by simp
  qed
qed

lemma resume_keeps:
  assumes "this \<in> set (store s)"
    and "h = (Bound_runOnce, this) \<longrightarrow> promise (Listener__run this r client_emit) \<noteq> Fulfilled"
  shows "this \<in> set (store (resume client_emit (h, r) s))"
proof -
  obtain f p where h: "h = (f, p)" by (cases h)
  show ?thesis
  proof (cases f)
    case Bound_run
    then show ?thesis using resume_run[of client_emit p r s] assms(1) by (simp add: h)
  next
    case Bound_runOnce
    show ?thesis
    proof (cases "p = this")
      case True
      with assms(2) have "promise (Listener__run this r client_emit) \<noteq> Fulfilled"
        by (simp add: h Bound_runOnce)
      from resume_runOnce_stays[OF this, of s] assms(1) show ?thesis
        by (simp add: h Bound_runOnce True)
    next
      case False
      with resume_runOnce_store[of client_emit p r s] assms(1) show ?thesis
        by (auto simp: h Bound_runOnce)
    qed
  qed
qed

lemma fold_resume_keeps:
  assumes "\<forall>task \<in> set tasks.
             fst task = (Bound_runOnce, this) \<longrightarrow> promise (Listener__run this (snd task) client_emit) \<noteq> Fulfilled"
    and "this \<in> set (store s)"
  shows "this \<in> set (store (fold (resume client_emit) tasks s))"
  using assms
proof (induction tasks arbitrary: s)
  case Nil
  then show ?case by simp
next
  case (Cons task tasks)
  obtain h r where task: "task = (h, r)" by (cases task)
  from Cons.prems have "h = (Bound_runOnce, this) \<longrightarrow> promise (Listener__run this r client_emit) \<noteq> Fulfilled"
    by (simp add: task)
  from resume_keeps[OF Cons.prems(2) this] have "this \<in> set (store (resume client_emit task s))"
    by (simp add: task)
  with Cons show ?case by simp
qed

lemma filter_fold_drop_once: "filter P (fold drop_once subs xs) = fold drop_once subs (filter P xs)"
  by (induction subs arbitrary: xs) (simp_all add: drop_once_def filter_remove1)

lemma fold_drop_once_nil: "fold drop_once subs [] = []"
  by (induction subs) (simp_all add: drop_once_def)

lemma drop_once_single: "drop_once a [x] = (if snd (snd (snd a)) \<and> a = x then [] else [x])"
  by (auto simp: drop_once_def)

lemma fold_drop_once_single:
  "fold drop_once subs [x] = (if x \<in> set subs \<and> snd (snd (snd x)) then [] else [x])"
  by (induction subs) (auto simp: drop_once_single fold_drop_once_nil)

lemma count_list_map: "count_list (map f xs) y = length (filter (\<lambda>x. f x = y) xs)"
  by (induction xs) simp_all

lemma emit_count:
  "count_list (ran (observed (emit client_emit results em ev s))) this
     = count_list (ran (observed s)) this
       + length (filter (sub_matches em ev) (filter (\<lambda>x. sub_listener x = this) (subscriptions s)))"
proof -
  have "filter (\<lambda>x. sub_listener x = this) (filter (sub_matches em ev) (subscriptions s))
      = filter (sub_matches em ev) (filter (\<lambda>x. sub_listener x = this) (subscriptions s))"
    by (simp add: conj_commute)
  then show ?thesis
    using emit_effect[of client_emit results em ev s] by (simp add: count_list_map)
qed

lemma emit_own:
  "filter (\<lambda>x. sub_listener x = this) (subscriptions (emit client_emit results em ev s))
     = fold drop_once (filter (sub_matches em ev) (subscriptions s))
         (filter (\<lambda>x. sub_listener x = this) (subscriptions s))"
  using emit_effect[of client_emit results em ev s] by (simp add: filter_fold_drop_once)

lemma steps_fired:
  assumes "once this"
  shows "filter (\<lambda>x. sub_listener x = this) (subscriptions s) = [] \<Longrightarrow>
         count_list (ran (observed (run_steps client_emit steps s))) this
           = count_list (ran (observed s)) this"
proof (induction steps arbitrary: s)
  case Nil
  then show ?case by simp
next
  case (Cons step steps)
  show ?case
  proof (cases step)
    case (Emit em ev results)
    let ?s' = "emit client_emit results em ev s"
    have "filter (\<lambda>x. sub_listener x = this) (subscriptions ?s') = []"
      using Cons.prems by (simp add: emit_own fold_drop_once_nil)
    from Cons.IH[OF this] show ?thesis
      using Cons.prems by (simp add: Emit emit_count)
  next
    case Drain
    let ?s' = "drain client_emit s"
    note d = drain_effect[of client_emit s this]
    from d assms Cons.prems have "filter (\<lambda>x. sub_listener x = this) (subscriptions ?s') = []"
      by simp
    from Cons.IH[OF this] show ?thesis using d by (simp add: Drain)
  qed
qed

lemma steps_loaded:
  assumes "once this"
  shows "filter (\<lambda>x. sub_listener x = this) (subscriptions s) = [(em, ev, (Bound_runOnce, this), True)] \<Longrightarrow>
         count_list (ran (observed (run_steps client_emit steps s))) this
           = count_list (ran (observed s)) this + (if list_ex (emits em ev) steps then 1 else 0)"
proof (induction steps arbitrary: s)
  case Nil
  then show ?case by simp
next
  case (Cons step steps)
  let ?sub = "(em, ev, (Bound_runOnce, this), True) :: subscription"
  have mem: "?sub \<in> set (subscriptions s)"
  proof -
    have "?sub \<in> set (filter (\<lambda>x. sub_listener x = this) (subscriptions s))"
      unfolding Cons.prems by simp
    then show ?thesis by simp
  qed
  show ?case
  proof (cases step)
    case (Emit em' ev' results)
    let ?s' = "emit client_emit results em' ev' s"
    show ?thesis
    proof (cases "em' = em \<and> ev' = ev")
      case True
      have "?sub \<in> set (filter (sub_matches em' ev') (subscriptions s))"
        using mem True by (simp add: sub_matches_def)
      then have own: "filter (\<lambda>x. sub_listener x = this) (subscriptions ?s') = []"
        by (simp add: emit_own Cons.prems fold_drop_once_single)
      have "count_list (ran (observed ?s')) this = count_list (ran (observed s)) this + 1"
        using True by (simp add: emit_count Cons.prems sub_matches_def)
      with steps_fired[OF assms own, of client_emit steps] show ?thesis
        using True by (simp add: Emit)
    next
      case False
      then have nm: "\<not> sub_matches em' ev' ?sub" by (auto simp: sub_matches_def)
      then have "?sub \<notin> set (filter (sub_matches em' ev') (subscriptions s))" by simp
      then have own: "filter (\<lambda>x. sub_listener x = this) (subscriptions ?s') = [?sub]"
        by (simp add: emit_own Cons.prems fold_drop_once_single)
      have "count_list (ran (observed ?s')) this = count_list (ran (observed s)) this"
        using nm by (simp add: emit_count Cons.prems)
      with Cons.IH[OF own] show ?thesis
        using False by (auto simp: Emit)
    qed
  next
    case Drain
    let ?s' = "drain client_emit s"
    note d = drain_effect[of client_emit s this]
    from d assms Cons.prems have "filter (\<lambda>x. sub_listener x = this) (subscriptions ?s') = [?sub]"
      by simp
    from Cons.IH[OF this] show ?thesis using d by (simp add: Drain)
  qed
qed

lemma emit_no_escape:
  assumes "\<forall>sub \<in> set (subscriptions s). wf_subscription sub"
    and "\<forall>task \<in> set (pending s). wf_handler (fst task)"
    and "\<forall>ev. client_emit ev = Inr ()"
  shows "unhandled (observed (drain client_emit (emit client_emit results em ev s)))
           = unhandled (observed s)"
proof -
  let ?s' = "emit client_emit results em ev s"
  note e = emit_effect[of client_emit results em ev s]
  have "\<forall>task \<in> set (pending ?s'). wf_handler (fst task)"
    using e assms(1,2) by (auto simp: wf_subscription_def)
  from fold_resume_no_unhandled[OF this assms(3), of "?s'\<lparr>pending := []\<rparr>"]
  show ?thesis using e by (simp add: drain_def)
qed

text \<open>
  C8, as amended. When the user's \<^verbatim>\<open>run\<close> throws or rejects with an error, the wrapper, \<^verbatim>\<open>_run\<close>
  or \<^verbatim>\<open>_runOnce\<close>, does not pass that error on: it emits the listener-error event on the
  client with the error and the listener itself (its name, event and path). Its promise then
  settles as the emission does: when the emission returns, the promise is fulfilled, as it is
  for a \<^verbatim>\<open>run\<close> that completed, and \<^verbatim>\<open>_runOnce\<close> goes on to the unload; when a subscriber of
  the listener-error event makes the emission throw, the promise rejects with that error.
  A wrapper never throws into the source, so an emission of the source calls every handler
  subscribed to the event, in order, whatever the handlers do; and as long as the
  listener-error emissions return, no rejection is left unhandled once the pending calls have
  resumed.
\<close>

theorem listener_error_isolation:
  "(r = Throws err \<or> r = Rejects err \<longrightarrow>
      now (Listener__run this r client_emit) @ later (Listener__run this r client_emit)
        = [ClientEmit (ListenerError err this)]
      \<and> ClientEmit (ListenerError err this)
          \<in> set (now (Listener__runOnce this r client_emit unloaded)
                  @ later (Listener__runOnce this r client_emit unloaded))
      \<and> promise (Listener__run this r client_emit) = settle (client_emit (ListenerError err this))
      \<and> (client_emit (ListenerError err this) = Inr () \<longrightarrow>
            promise (Listener__run this r client_emit) = Fulfilled
            \<and> promise (Listener__runOnce this r client_emit (Inr ())) = Fulfilled
            \<and> now (Listener__runOnce this r client_emit (Inr ()))
                @ later (Listener__runOnce this r client_emit (Inr ()))
               = [ClientEmit (ListenerError err this), StoreUnload this])
      \<and> (client_emit (ListenerError err this) = Inl escaped \<longrightarrow>
            promise (Listener__run this r client_emit) = Rejected escaped
            \<and> promise (Listener__runOnce this r client_emit unloaded) = Rejected escaped))
   \<and> (r = Returns v \<or> r = Resolves v \<longrightarrow>
        promise (Listener__run this r client_emit) = Fulfilled
        \<and> now (Listener__run this r client_emit) @ later (Listener__run this r client_emit) = [])
   \<and> ran (observed (emit client_emit results em ev s))
       = ran (observed s) @ map sub_listener (filter (sub_matches em ev) (subscriptions s))
   \<and> ((\<forall>sub \<in> set (subscriptions s). wf_subscription sub)
        \<and> (\<forall>task \<in> set (pending s). wf_handler (fst task))
        \<and> (\<forall>event. client_emit event = Inr ()) \<longrightarrow>
        unhandled (observed (drain client_emit (emit client_emit results em ev s)))
          = unhandled (observed s))"
proof (intro conjI impI)
  assume f: "r = Throws err \<or> r = Rejects err"
  then show a: "now (Listener__run this r client_emit) @ later (Listener__run this r client_emit)
        = [ClientEmit (ListenerError err this)]"
    by (auto simp: run_actions)
  from f show "ClientEmit (ListenerError err this)
          \<in> set (now (Listener__runOnce this r client_emit unloaded)
                  @ later (Listener__runOnce this r client_emit unloaded))"
    by (auto simp: runOnce_now runOnce_later Listener__run_def)
  from f show p: "promise (Listener__run this r client_emit) = settle (client_emit (ListenerError err this))"
    by (auto simp: run_promise)
  assume q: "client_emit (ListenerError err this) = Inr ()"
  with p show p': "promise (Listener__run this r client_emit) = Fulfilled"
    by (simp add: settle_def)
  then show "promise (Listener__runOnce this r client_emit (Inr ())) = Fulfilled"
    by (simp add: runOnce_promise settle_def)
  from p' a show "now (Listener__runOnce this r client_emit (Inr ()))
                @ later (Listener__runOnce this r client_emit (Inr ()))
               = [ClientEmit (ListenerError err this), StoreUnload this]"
    by (simp add: runOnce_now runOnce_later append_assoc[symmetric] del: append_assoc)
next
  assume f: "r = Throws err \<or> r = Rejects err"
    and t: "client_emit (ListenerError err this) = Inl escaped"
  then show p: "promise (Listener__run this r client_emit) = Rejected escaped"
    by (auto simp: run_promise settle_def)
  then show "promise (Listener__runOnce this r client_emit unloaded) = Rejected escaped"
    by (simp add: runOnce_promise)
next
  assume "r = Returns v \<or> r = Resolves v"
  then show "promise (Listener__run this r client_emit) = Fulfilled"
    and "now (Listener__run this r client_emit) @ later (Listener__run this r client_emit) = []"
    by (auto simp: Listener__run_def)
next
  show "ran (observed (emit client_emit results em ev s))
       = ran (observed s) @ map sub_listener (filter (sub_matches em ev) (subscriptions s))"
    using emit_effect[of client_emit results em ev s] by blast
next
  assume "(\<forall>sub \<in> set (subscriptions s). wf_subscription sub)
        \<and> (\<forall>task \<in> set (pending s). wf_handler (fst task))
        \<and> (\<forall>event. client_emit event = Inr ())"
  then show "unhandled (observed (drain client_emit (emit client_emit results em ev s)))
          = unhandled (observed s)"
    using emit_no_escape by blast
qed

lemma onUnload_off:
  assumes "onUnload x = Inr calls" and "CallOff em' ev' h \<in> set calls"
  shows "\<not> once x"
  using assms by (auto simp: onUnload_def split: if_splits)

lemma once_load:
  assumes "once this" and "listener_fn this = Some Bound_runOnce" and "emitter this = Some em"
  shows "store_load this s
     = Inr (s\<lparr>subscriptions := subscriptions s @ [(em, event this, (Bound_runOnce, this), True)],
              store := store s @ [this]\<rparr>)"
  using assms by (simp add: store_load_def onLoad_def)

lemma once_in_system:
  fixes s :: "('v, 'e) system"
  assumes o: "once this"
    and fresh: "\<forall>sub \<in> set (subscriptions s). sub_listener sub \<noteq> this"
    and loaded_def: "loaded = s\<lparr>subscriptions := subscriptions s @ [(em, event this, (Bound_runOnce, this), True)],
                     store := store s @ [this]\<rparr>"
  shows "count_list (ran (observed (run_steps client_emit steps loaded))) this
           = count_list (ran (observed s)) this + (if list_ex (emits em (event this)) steps then 1 else 0)"
    and "this \<in> set (store (emit client_emit results em (event this) loaded))"
    and "promise (Listener__run this (results this) client_emit) = Fulfilled \<Longrightarrow>
           this \<notin> set (store (drain client_emit (emit client_emit results em (event this) loaded)))"
    and "promise (Listener__run this (results this) client_emit) \<noteq> Fulfilled \<Longrightarrow>
         \<forall>task \<in> set (pending s). fst task \<noteq> (Bound_runOnce, this) \<Longrightarrow>
           this \<in> set (store (drain client_emit (emit client_emit results em (event this) loaded)))"
proof -
  let ?sub = "(em, event this, (Bound_runOnce, this), True) :: subscription"
  let ?s2 = "emit client_emit results em (event this) loaded"
  have sub_this: "sub_listener ?sub = this" by (simp add: sub_listener_def)
  have own: "filter (\<lambda>x. sub_listener x = this) (subscriptions loaded) = [?sub]"
    using fresh by (simp add: loaded_def sub_this)
  from steps_loaded[OF o own, of client_emit steps]
  show "count_list (ran (observed (run_steps client_emit steps loaded))) this
           = count_list (ran (observed s)) this + (if list_ex (emits em (event this)) steps then 1 else 0)"
    by (simp add: loaded_def)
  note e = emit_effect[of client_emit results em "event this" loaded]
  from e show "this \<in> set (store ?s2)" by (simp add: loaded_def)
  have snap: "filter (sub_matches em (event this)) (subscriptions loaded)
      = filter (sub_matches em (event this)) (subscriptions s) @ [?sub]"
    by (simp add: loaded_def sub_matches_def)
  have pend: "pending ?s2 = pending s
      @ map (\<lambda>sub. (sub_handler sub, results (sub_listener sub)))
          (filter (sub_matches em (event this)) (subscriptions s))
      @ [((Bound_runOnce, this), results this)]"
    using e unfolding snap by (simp add: loaded_def sub_handler_def sub_this)
  {
    assume f: "promise (Listener__run this (results this) client_emit) = Fulfilled"
    have "((Bound_runOnce, this), results this) \<in> set (pending ?s2)" unfolding pend by simp
    from fold_resume_unloads[OF o f this, of "?s2\<lparr>pending := []\<rparr>"]
    show "this \<notin> set (store (drain client_emit ?s2))" by (simp add: drain_def)
  }
  {
    assume nf: "promise (Listener__run this (results this) client_emit) \<noteq> Fulfilled"
      and np: "\<forall>task \<in> set (pending s). fst task \<noteq> (Bound_runOnce, this)"
    have "\<forall>task \<in> set (pending ?s2).
             fst task = (Bound_runOnce, this) \<longrightarrow> promise (Listener__run this (snd task) client_emit) \<noteq> Fulfilled"
      unfolding pend using nf np fresh by (auto simp: sub_handler_def sub_listener_def)
    moreover have "this \<in> set (store (?s2\<lparr>pending := []\<rparr>))"
      using e by (simp add: loaded_def)
    ultimately have "this \<in> set (store (fold (resume client_emit) (pending ?s2) (?s2\<lparr>pending := []\<rparr>)))"
      by (rule fold_resume_keeps)
    then show "this \<in> set (store (drain client_emit ?s2))" by (simp add: drain_def)
  }
qed

text \<open>
  C9, as amended. For a listener registered with the once flag: when the promise of \<^verbatim>\<open>_run\<close>
  is fulfilled, which it is after a \<^verbatim>\<open>run\<close> that succeeded and after one that threw or
  rejected if the listener-error emission returned, \<^verbatim>\<open>_runOnce\<close> asks the store to unload the
  listener, as its last action after its awaits have resumed; when the emission throws,
  \<^verbatim>\<open>_runOnce\<close> rejects and does not ask. Loading subscribes with \<^verbatim>\<open>once\<close>; unloading issues no
  call to the source, and \<^verbatim>\<open>off\<close> is only ever issued by a listener without the once flag.
  In a system where no other subscription belongs to the listener, after loading it, any
  sequence of emissions and resumptions calls its handler exactly once if its event is
  emitted at all, and never otherwise. The listener is still in the store when the emission
  returns; after the pending calls have resumed it has left the store if the promise of
  \<^verbatim>\<open>_run\<close> was fulfilled, and is still there if not.
\<close>

theorem once_listener_fires_once:
  fixes s :: "('v, 'e) system" and results :: "listener \<Rightarrow> ('v, 'e) handler_result"
    and r :: "('v, 'e) handler_result"
  assumes "once this" and "listener_fn this = Some Bound_runOnce" and "emitter this = Some em"
  shows "(promise (Listener__run this r client_emit) = Fulfilled \<longrightarrow>
            now (Listener__runOnce this r client_emit unloaded) = now (Listener__run this r client_emit)
            \<and> later (Listener__runOnce this r client_emit unloaded)
                = later (Listener__run this r client_emit) @ [StoreUnload this])
       \<and> ((\<forall>event. client_emit event = Inr ()) \<and> r \<noteq> NeverSettles \<longrightarrow>
            promise (Listener__run this r client_emit) = Fulfilled)
       \<and> (promise (Listener__run this r client_emit) \<noteq> Fulfilled \<longrightarrow>
            StoreUnload this \<notin> set (now (Listener__runOnce this r client_emit unloaded)
                                      @ later (Listener__runOnce this r client_emit unloaded)))
       \<and> ((r = Throws err \<or> r = Rejects err) \<and> client_emit (ListenerError err this) = Inl escaped \<longrightarrow>
            promise (Listener__runOnce this r client_emit unloaded) = Rejected escaped
            \<and> StoreUnload this \<notin> set (now (Listener__runOnce this r client_emit unloaded)
                                        @ later (Listener__runOnce this r client_emit unloaded)))
       \<and> onLoad this = Inr [CallOnce em (event this) (Bound_runOnce, this)]
       \<and> onUnload this = Inr []
       \<and> (onUnload x = Inr calls \<and> CallOff em' ev' h \<in> set calls \<longrightarrow> \<not> once x)
       \<and> ((\<forall>sub \<in> set (subscriptions s). sub_listener sub \<noteq> this) \<longrightarrow>
            (\<exists>s1. store_load this s = Inr s1
               \<and> (\<forall>steps. count_list (ran (observed (run_steps client_emit steps s1))) this
                             = count_list (ran (observed s)) this
                               + (if list_ex (emits em (event this)) steps then 1 else 0))
               \<and> this \<in> set (store (emit client_emit results em (event this) s1))
               \<and> (promise (Listener__run this (results this) client_emit) = Fulfilled \<longrightarrow>
                    this \<notin> set (store (drain client_emit (emit client_emit results em (event this) s1))))
               \<and> (promise (Listener__run this (results this) client_emit) \<noteq> Fulfilled
                    \<and> (\<forall>task \<in> set (pending s). fst task \<noteq> (Bound_runOnce, this)) \<longrightarrow>
                    this \<in> set (store (drain client_emit (emit client_emit results em (event this) s1))))))"
proof (intro conjI impI)
  assume "promise (Listener__run this r client_emit) = Fulfilled"
  then show "now (Listener__runOnce this r client_emit unloaded) = now (Listener__run this r client_emit)"
    and "later (Listener__runOnce this r client_emit unloaded)
                = later (Listener__run this r client_emit) @ [StoreUnload this]"
    by (simp_all add: runOnce_now runOnce_later)
next
  assume "(\<forall>event. client_emit event = Inr ()) \<and> r \<noteq> NeverSettles"
  then show "promise (Listener__run this r client_emit) = Fulfilled"
    using quiet_run_settles[of client_emit this r] by simp
next
  assume "promise (Listener__run this r client_emit) \<noteq> Fulfilled"
  then show "StoreUnload this \<notin> set (now (Listener__runOnce this r client_emit unloaded)
                                      @ later (Listener__runOnce this r client_emit unloaded))"
    using run_only_emits[of "StoreUnload this" this r client_emit]
    by (auto simp: runOnce_now runOnce_later)
next
  assume "(r = Throws err \<or> r = Rejects err) \<and> client_emit (ListenerError err this) = Inl escaped"
  then have p: "promise (Listener__run this r client_emit) = Rejected escaped"
    by (auto simp: run_promise settle_def)
  then show "promise (Listener__runOnce this r client_emit unloaded) = Rejected escaped"
    by (simp add: runOnce_promise)
  from p show "StoreUnload this \<notin> set (now (Listener__runOnce this r client_emit unloaded)
                                        @ later (Listener__runOnce this r client_emit unloaded))"
    using run_only_emits[of "StoreUnload this" this r client_emit]
    by (auto simp: runOnce_now runOnce_later)
next
  show "onLoad this = Inr [CallOnce em (event this) (Bound_runOnce, this)]"
    using assms by (simp add: onLoad_def)
next
  show "onUnload this = Inr []"
    using assms by (simp add: onUnload_def)
next
  assume "onUnload x = Inr calls \<and> CallOff em' ev' h \<in> set calls"
  then show "\<not> once x" using onUnload_off by blast
next
  assume fresh: "\<forall>sub \<in> set (subscriptions s). sub_listener sub \<noteq> this"
  let ?s1 = "s\<lparr>subscriptions := subscriptions s @ [(em, event this, (Bound_runOnce, this), True)],
                store := store s @ [this]\<rparr>"
  note sys = once_in_system[OF assms(1) fresh, of ?s1 em, OF refl]
  have "store_load this s = Inr ?s1" using assms by (rule once_load)
  moreover have "\<forall>steps. count_list (ran (observed (run_steps client_emit steps ?s1))) this
                             = count_list (ran (observed s)) this
                               + (if list_ex (emits em (event this)) steps then 1 else 0)"
    using sys(1) by blast
  moreover have "this \<in> set (store (emit client_emit results em (event this) ?s1))"
    by (rule sys(2))
  moreover have "promise (Listener__run this (results this) client_emit) = Fulfilled \<longrightarrow>
                    this \<notin> set (store (drain client_emit (emit client_emit results em (event this) ?s1)))"
    using sys(3) by blast
  moreover have "promise (Listener__run this (results this) client_emit) \<noteq> Fulfilled
                    \<and> (\<forall>task \<in> set (pending s). fst task \<noteq> (Bound_runOnce, this)) \<longrightarrow>
                    this \<in> set (store (drain client_emit (emit client_emit results em (event this) ?s1)))"
    using sys(4) by blast
  ultimately show "\<exists>s1. store_load this s = Inr s1
               \<and> (\<forall>steps. count_list (ran (observed (run_steps client_emit steps s1))) this
                             = count_list (ran (observed s)) this
                               + (if list_ex (emits em (event this)) steps then 1 else 0))
               \<and> this \<in> set (store (emit client_emit results em (event this) s1))
               \<and> (promise (Listener__run this (results this) client_emit) = Fulfilled \<longrightarrow>
                    this \<notin> set (store (drain client_emit (emit client_emit results em (event this) s1))))
               \<and> (promise (Listener__run this (results this) client_emit) \<noteq> Fulfilled
                    \<and> (\<forall>task \<in> set (pending s). fst task \<noteq> (Bound_runOnce, this)) \<longrightarrow>
                    this \<in> set (store (drain client_emit (emit client_emit results em (event this) s1))))"
    by blast
qed

lemma once_listener_fields:
  "once once_listener" "listener_fn once_listener = Some Bound_runOnce"
  "emitter once_listener = Some ClientEmitter" "event once_listener = ''ready''"
  "piece_name once_listener = ''ready''"
  by (simp_all add: once_listener_def Listener_new_def Let_def)

lemma persistent_listener_fields:
  "\<not> once persistent_listener" "listener_fn persistent_listener = Some Bound_run"
  "emitter persistent_listener = Some ClientEmitter" "event persistent_listener = ''ready''"
  "piece_name persistent_listener = ''logger''"
  by (simp_all add: persistent_listener_def Listener_new_def Let_def)

lemma listeners_differ: "persistent_listener \<noteq> once_listener"
  using once_listener_fields(1) persistent_listener_fields(1) by auto

lemma failing_results_values:
  "failing_results once_listener = Throws ''boom''" "failing_results persistent_listener = Rejects ''bang''"
  by (simp_all add: failing_results_def once_listener_fields persistent_listener_fields)

lemma once_loaded: "store_load once_listener persistent_system = Inr once_loaded_system"
  using once_load[OF once_listener_fields(1,2,3), of persistent_system]
  by (simp add: persistent_system_def once_loaded_system_def once_listener_fields)

lemma persistent_system_fresh:
  "\<forall>sub \<in> set (subscriptions persistent_system). sub_listener sub \<noteq> once_listener"
  using listeners_differ by (simp add: persistent_system_def sub_listener_def)

text \<open>
  The claim as stated fails when a subscriber of the listener-error event throws: the promise
  of \<^verbatim>\<open>_run\<close> rejects where that of a completed call is fulfilled, and the rejection is left
  unhandled.
\<close>

theorem listener_error_isolation_counterexample:
  "failing_results once_listener = Throws ''boom''
   \<and> promise (Listener__run once_listener (failing_results once_listener) throwing_emit)
       = Rejected (External ''subscriber'')
   \<and> promise (Listener__run once_listener (Returns () :: (unit, string) handler_result) throwing_emit)
       = Fulfilled
   \<and> unhandled (observed (drain throwing_emit
        (emit throwing_emit failing_results ClientEmitter ''ready'' persistent_system)))
       = [External ''subscriber'']"
proof -
  let ?s = "emit throwing_emit failing_results ClientEmitter ''ready'' persistent_system"
  have p: "promise (Listener__run once_listener (failing_results once_listener) throwing_emit)
       = Rejected (External ''subscriber'')"
    by (simp add: failing_results_values run_promise settle_def throwing_emit_def)
  have q: "promise (Listener__run once_listener (Returns () :: (unit, string) handler_result) throwing_emit)
       = Fulfilled"
    by (simp add: run_promise)
  note e = emit_effect[of throwing_emit failing_results ClientEmitter "''ready''" persistent_system]
  have pend: "pending ?s = [((Bound_run, persistent_listener), Rejects ''bang'')]"
    using e by (simp add: persistent_system_def sub_matches_def sub_handler_def sub_listener_def
        failing_results_values)
  have obs: "unhandled (observed ?s) = []"
    using e by (simp add: persistent_system_def)
  have "unhandled (observed (drain throwing_emit ?s)) = [External ''subscriber'']"
    using resume_run[of throwing_emit persistent_listener "Rejects ''bang''" "?s\<lparr>pending := []\<rparr>"] obs
    by (simp add: drain_def pend run_promise settle_def throwing_emit_def)
  with p q failing_results_values(1) show ?thesis by simp
qed

theorem listener_error_isolation_witness:
  "failing_results once_listener = Throws ''boom''
   \<and> quiet_emit (ListenerError ''boom'' once_listener) = Inr ()
   \<and> now (Listener__run once_listener (failing_results once_listener) quiet_emit)
       @ later (Listener__run once_listener (failing_results once_listener) quiet_emit)
      = [ClientEmit (ListenerError ''boom'' once_listener)]
   \<and> promise (Listener__run once_listener (failing_results once_listener) quiet_emit) = Fulfilled
   \<and> promise (Listener__runOnce once_listener (failing_results once_listener) quiet_emit (Inr ())) = Fulfilled
   \<and> now (Listener__runOnce once_listener (failing_results once_listener) quiet_emit (Inr ()))
       @ later (Listener__runOnce once_listener (failing_results once_listener) quiet_emit (Inr ()))
      = [ClientEmit (ListenerError ''boom'' once_listener), StoreUnload once_listener]
   \<and> list_all wf_subscription (subscriptions loaded_system)
   \<and> list_all (\<lambda>task. wf_handler (fst task)) (pending loaded_system)
   \<and> (\<forall>event. quiet_emit event = Inr ())
   \<and> ran (observed (emit quiet_emit failing_results ClientEmitter ''ready'' loaded_system))
       = [once_listener, persistent_listener]
   \<and> unhandled (observed (drain quiet_emit
        (emit quiet_emit failing_results ClientEmitter ''ready'' loaded_system))) = []
   \<and> throwing_emit (ListenerError ''boom'' once_listener) = Inl (External ''subscriber'')
   \<and> promise (Listener__run once_listener (failing_results once_listener) throwing_emit)
       = Rejected (External ''subscriber'')
   \<and> promise (Listener__runOnce once_listener (failing_results once_listener) throwing_emit (Inr ()))
       = Rejected (External ''subscriber'')
   \<and> promise (Listener__run once_listener (Returns () :: (unit, string) handler_result) quiet_emit)
       = Fulfilled"
proof -
  note T = listener_error_isolation[where r = "failing_results once_listener" and err = "''boom''"
      and this = once_listener and client_emit = quiet_emit and unloaded = "Inr ()" and v = "()"
      and results = failing_results and em = ClientEmitter and ev = "''ready''" and s = loaded_system]
  note U = listener_error_isolation[where r = "failing_results once_listener" and err = "''boom''"
      and this = once_listener and client_emit = throwing_emit and unloaded = "Inr ()"
      and escaped = "External ''subscriber''"]
  note V = listener_error_isolation[where r = "Returns () :: (unit, string) handler_result"
      and v = "()" and this = once_listener and client_emit = quiet_emit]
  have t: "throwing_emit (ListenerError ''boom'' once_listener) = Inl (External ''subscriber'')"
    by (simp add: throwing_emit_def)
  have f: "failing_results once_listener = Throws ''boom''" by (rule failing_results_values)
  from U t f have u1: "promise (Listener__run once_listener (failing_results once_listener) throwing_emit)
       = Rejected (External ''subscriber'')"
    and u2: "promise (Listener__runOnce once_listener (failing_results once_listener) throwing_emit (Inr ()))
       = Rejected (External ''subscriber'')"
    by blast+
  from V have v1: "promise (Listener__run once_listener (Returns () :: (unit, string) handler_result) quiet_emit)
       = Fulfilled"
    by blast
  have q: "quiet_emit (ListenerError ''boom'' once_listener) = Inr ()"
    and qa: "\<forall>event. quiet_emit event = Inr ()"
    by (simp_all add: quiet_emit_def)
  have wf: "\<forall>sub \<in> set (subscriptions loaded_system). wf_subscription sub"
    by (simp add: loaded_system_def wf_subscription_def wf_handler_def sub_handler_def once_listener_fields)
  have wp: "\<forall>task \<in> set (pending loaded_system). wf_handler (fst task)"
    by (simp add: loaded_system_def)
  have snap: "map sub_listener (filter (sub_matches ClientEmitter ''ready'') (subscriptions loaded_system))
      = [once_listener, persistent_listener]"
    by (simp add: loaded_system_def sub_matches_def sub_listener_def)
  have obs: "ran (observed loaded_system) = []" "unhandled (observed loaded_system) = []"
    by (simp_all add: loaded_system_def)
  from T f q have a: "now (Listener__run once_listener (failing_results once_listener) quiet_emit)
       @ later (Listener__run once_listener (failing_results once_listener) quiet_emit)
      = [ClientEmit (ListenerError ''boom'' once_listener)]"
    and b: "promise (Listener__run once_listener (failing_results once_listener) quiet_emit) = Fulfilled"
    and c: "promise (Listener__runOnce once_listener (failing_results once_listener) quiet_emit (Inr ())) = Fulfilled"
    and d: "now (Listener__runOnce once_listener (failing_results once_listener) quiet_emit (Inr ()))
       @ later (Listener__runOnce once_listener (failing_results once_listener) quiet_emit (Inr ()))
      = [ClientEmit (ListenerError ''boom'' once_listener), StoreUnload once_listener]"
    by blast+
  from T have e: "ran (observed (emit quiet_emit failing_results ClientEmitter ''ready'' loaded_system))
       = [once_listener, persistent_listener]"
    unfolding snap obs by simp
  from T wf wp qa have g: "unhandled (observed (drain quiet_emit
        (emit quiet_emit failing_results ClientEmitter ''ready'' loaded_system))) = []"
    unfolding obs by blast
  from wf have wf': "list_all wf_subscription (subscriptions loaded_system)"
    by (simp add: list_all_iff)
  from wp have wp': "list_all (\<lambda>task. wf_handler (fst task)) (pending loaded_system)"
    by (simp add: list_all_iff)
  from f q a b c d wf' wp' qa e g t u1 u2 v1 show ?thesis by blast
qed

text \<open>
  The claim as stated fails when \<^verbatim>\<open>run\<close> throws and a subscriber of the listener-error event
  throws in turn: \<^verbatim>\<open>_runOnce\<close> rejects without asking the store to unload, and the listener
  stays in the store.
\<close>

theorem once_listener_fires_once_counterexample:
  "failing_results once_listener = Throws ''boom''
   \<and> promise (Listener__run once_listener (failing_results once_listener) throwing_emit)
       = Rejected (External ''subscriber'')
   \<and> promise (Listener__runOnce once_listener (failing_results once_listener) throwing_emit (Inr ()))
       = Rejected (External ''subscriber'')
   \<and> StoreUnload once_listener
       \<notin> set (now (Listener__runOnce once_listener (failing_results once_listener) throwing_emit (Inr ()))
              @ later (Listener__runOnce once_listener (failing_results once_listener) throwing_emit (Inr ())))
   \<and> store_load once_listener persistent_system = Inr once_loaded_system
   \<and> once_listener \<in> set (store (drain throwing_emit
        (emit throwing_emit failing_results ClientEmitter ''ready'' once_loaded_system)))"
proof -
  have p: "promise (Listener__run once_listener (failing_results once_listener) throwing_emit)
       = Rejected (External ''subscriber'')"
    by (simp add: failing_results_values run_promise settle_def throwing_emit_def)
  then have nf: "promise (Listener__run once_listener (failing_results once_listener) throwing_emit) \<noteq> Fulfilled"
    by simp
  have p': "promise (Listener__runOnce once_listener (failing_results once_listener) throwing_emit (Inr ()))
       = Rejected (External ''subscriber'')"
    using p by (simp add: runOnce_promise)
  have n: "StoreUnload once_listener
       \<notin> set (now (Listener__runOnce once_listener (failing_results once_listener) throwing_emit (Inr ()))
              @ later (Listener__runOnce once_listener (failing_results once_listener) throwing_emit (Inr ())))"
    using nf run_only_emits[of "StoreUnload once_listener" once_listener
        "failing_results once_listener" throwing_emit]
    by (auto simp: runOnce_now runOnce_later)
  have np: "\<forall>task \<in> set (pending persistent_system). fst task \<noteq> (Bound_runOnce, once_listener)"
    by (simp add: persistent_system_def)
  have s1: "once_loaded_system = persistent_system
      \<lparr>subscriptions := subscriptions persistent_system
          @ [(ClientEmitter, event once_listener, (Bound_runOnce, once_listener), True)],
       store := store persistent_system @ [once_listener]\<rparr>"
    by (simp add: once_loaded_system_def persistent_system_def once_listener_fields)
  from once_in_system(4)[where this = once_listener and s = persistent_system and loaded = once_loaded_system
      and em = ClientEmitter and results = failing_results and client_emit = throwing_emit]
    once_listener_fields(1) persistent_system_fresh s1 nf np
  have "once_listener \<in> set (store (drain throwing_emit
        (emit throwing_emit failing_results ClientEmitter ''ready'' once_loaded_system)))"
    by (simp add: once_listener_fields)
  with failing_results_values(1) p p' n once_loaded show ?thesis by simp
qed

theorem once_listener_fires_once_witness:
  "once once_listener \<and> listener_fn once_listener = Some Bound_runOnce
   \<and> emitter once_listener = Some ClientEmitter
   \<and> (\<forall>event. quiet_emit event = Inr ())
   \<and> failing_results once_listener = Throws ''boom''
   \<and> promise (Listener__run once_listener (failing_results once_listener) quiet_emit) = Fulfilled
   \<and> later (Listener__runOnce once_listener (failing_results once_listener) quiet_emit (Inr ()))
       = later (Listener__run once_listener (failing_results once_listener) quiet_emit)
         @ [StoreUnload once_listener]
   \<and> onLoad once_listener = Inr [CallOnce ClientEmitter ''ready'' (Bound_runOnce, once_listener)]
   \<and> onUnload once_listener = Inr []
   \<and> list_all (\<lambda>sub. sub_listener sub \<noteq> once_listener) (subscriptions persistent_system)
   \<and> store_load once_listener persistent_system = Inr once_loaded_system
   \<and> count_list (ran (observed (run_steps quiet_emit
        [Emit ClientEmitter ''ready'' failing_results, Emit ClientEmitter ''ready'' failing_results,
         Drain, Emit ClientEmitter ''ready'' failing_results] once_loaded_system))) once_listener = 1
   \<and> once_listener \<in> set (store (emit quiet_emit failing_results ClientEmitter ''ready'' once_loaded_system))
   \<and> once_listener \<notin> set (store (drain quiet_emit
        (emit quiet_emit failing_results ClientEmitter ''ready'' once_loaded_system)))
   \<and> throwing_emit (ListenerError ''boom'' once_listener) = Inl (External ''subscriber'')
   \<and> promise (Listener__runOnce once_listener (failing_results once_listener) throwing_emit (Inr ()))
       = Rejected (External ''subscriber'')
   \<and> promise (Listener__run once_listener (failing_results once_listener) throwing_emit) \<noteq> Fulfilled
   \<and> list_all (\<lambda>task. fst task \<noteq> (Bound_runOnce, once_listener)) (pending persistent_system)
   \<and> once_listener \<in> set (store (drain throwing_emit
        (emit throwing_emit failing_results ClientEmitter ''ready'' once_loaded_system)))"
proof -
  note T = once_listener_fires_once[OF once_listener_fields(1,2,3),
      where r = "failing_results once_listener" and client_emit = quiet_emit and unloaded = "Inr ()"
        and s = persistent_system and results = failing_results]
  note U = once_listener_fires_once[OF once_listener_fields(1,2,3),
      where r = "failing_results once_listener" and client_emit = throwing_emit and unloaded = "Inr ()"
        and s = persistent_system and results = failing_results and err = "''boom''"
        and escaped = "External ''subscriber''"]
  have qa: "\<forall>event. quiet_emit event = Inr ()" by (simp add: quiet_emit_def)
  have t: "throwing_emit (ListenerError ''boom'' once_listener) = Inl (External ''subscriber'')"
    by (simp add: throwing_emit_def)
  have nf: "promise (Listener__run once_listener (failing_results once_listener) throwing_emit) \<noteq> Fulfilled"
    by (simp add: failing_results_values run_promise settle_def throwing_emit_def)
  have np: "\<forall>task \<in> set (pending persistent_system). fst task \<noteq> (Bound_runOnce, once_listener)"
    by (simp add: persistent_system_def)
  then have np': "list_all (\<lambda>task. fst task \<noteq> (Bound_runOnce, once_listener)) (pending persistent_system)"
    by (simp add: list_all_iff)
  have f: "failing_results once_listener = Throws ''boom''" by (rule failing_results_values)
  from U t f have u1: "promise (Listener__runOnce once_listener (failing_results once_listener) throwing_emit (Inr ()))
       = Rejected (External ''subscriber'')"
    by blast
  from U persistent_system_fresh obtain s2 where ld2: "store_load once_listener persistent_system = Inr s2"
    and keep: "promise (Listener__run once_listener (failing_results once_listener) throwing_emit) \<noteq> Fulfilled
          \<and> (\<forall>task \<in> set (pending persistent_system). fst task \<noteq> (Bound_runOnce, once_listener)) \<longrightarrow>
          once_listener \<in> set (store (drain throwing_emit
             (emit throwing_emit failing_results ClientEmitter (event once_listener) s2)))"
    by blast
  from ld2 once_loaded have s2: "s2 = once_loaded_system" by simp
  from keep nf np have u2: "once_listener \<in> set (store (drain throwing_emit
        (emit throwing_emit failing_results ClientEmitter ''ready'' once_loaded_system)))"
    by (simp add: s2 once_listener_fields)
  from f have ns: "failing_results once_listener \<noteq> NeverSettles" by simp
  from T qa ns have p: "promise (Listener__run once_listener (failing_results once_listener) quiet_emit) = Fulfilled"
    by blast
  from T p have l: "later (Listener__runOnce once_listener (failing_results once_listener) quiet_emit (Inr ()))
       = later (Listener__run once_listener (failing_results once_listener) quiet_emit)
         @ [StoreUnload once_listener]"
    by blast
  from T have ol: "onLoad once_listener = Inr [CallOnce ClientEmitter ''ready'' (Bound_runOnce, once_listener)]"
    by (simp add: once_listener_fields)
  from T have ou: "onUnload once_listener = Inr []" by blast
  note fresh = persistent_system_fresh
  have obs: "count_list (ran (observed persistent_system)) once_listener = 0"
    by (simp add: persistent_system_def)
  let ?steps = "[Emit ClientEmitter ''ready'' failing_results, Emit ClientEmitter ''ready'' failing_results,
         Drain, Emit ClientEmitter ''ready'' failing_results] :: (unit, string) step list"
  from T fresh obtain s1 where ld: "store_load once_listener persistent_system = Inr s1"
    and cnt: "\<forall>steps. count_list (ran (observed (run_steps quiet_emit steps s1))) once_listener
                 = count_list (ran (observed persistent_system)) once_listener
                   + (if list_ex (emits ClientEmitter (event once_listener)) steps then 1 else 0)"
    and st: "once_listener \<in> set (store (emit quiet_emit failing_results ClientEmitter (event once_listener) s1))"
    and un: "promise (Listener__run once_listener (failing_results once_listener) quiet_emit) = Fulfilled \<longrightarrow>
          once_listener \<notin> set (store (drain quiet_emit
             (emit quiet_emit failing_results ClientEmitter (event once_listener) s1)))"
    by blast
  from ld once_loaded have s1: "s1 = once_loaded_system" by simp
  from cnt have c: "count_list (ran (observed (run_steps quiet_emit ?steps once_loaded_system))) once_listener = 1"
    unfolding s1 obs once_listener_fields(4) by (simp del: run_steps.simps)
  from st have st': "once_listener \<in> set (store (emit quiet_emit failing_results ClientEmitter ''ready'' once_loaded_system))"
    by (simp add: s1 once_listener_fields)
  from un p have un': "once_listener \<notin> set (store (drain quiet_emit
        (emit quiet_emit failing_results ClientEmitter ''ready'' once_loaded_system)))"
    by (simp add: s1 once_listener_fields)
  from fresh have fresh': "list_all (\<lambda>sub. sub_listener sub \<noteq> once_listener) (subscriptions persistent_system)"
    by (simp add: list_all_iff)
  from once_listener_fields(1,2,3) qa f p l ol ou fresh' once_loaded c st' un' t u1 nf np' u2
  show ?thesis by blast
qed

end
